theory Spec2Isabelle
  imports Complex_Main "HOL-Library.Word"
begin

section \<open>SIM868 driver: constants of sim868.c\<close>

type_synonym uint8_t = "8 word"
type_synonym uint16_t = "16 word"

text \<open>Error codes (the \<open>#define\<close>s at the head of sim868.c).\<close>

definition NO_ERROR :: uint8_t where "NO_ERROR = 0"
definition ERROR_NETWORK_RSSI :: uint8_t where "ERROR_NETWORK_RSSI = 4"
definition ERROR_NETWORK_REGISTRATION :: uint8_t where "ERROR_NETWORK_REGISTRATION = 5"
definition ERROR_GPRS_SERVICE :: uint8_t where "ERROR_GPRS_SERVICE = 6"
definition ERROR_GPRS_CONTEXT :: uint8_t where "ERROR_GPRS_CONTEXT = 7"
definition ERROR_REPLY :: uint8_t where "ERROR_REPLY = 8"
definition ERROR_HTTP_SERVICE :: uint8_t where "ERROR_HTTP_SERVICE = 9"
definition ERROR_HTTP_REQUEST :: uint8_t where "ERROR_HTTP_REQUEST = 10"
definition ERROR_HTTP_STATUS_CODE :: uint8_t where "ERROR_HTTP_STATUS_CODE = 11"
definition ERROR_JSON_STRUCTURE :: uint8_t where "ERROR_JSON_STRUCTURE = 12"

section \<open>GNSS: date and time normalisation to UTC-6\<close>

text \<open>
  \<open>struct GNSS_Data_Time\<close>: six \<open>uint8_t\<close> fields. The blocks of
  \<open>SIM868_gnss_get_data\<close> below work on the integers already stored in the fields; how
  the source reads them from the sentence (\<open>strcpy\<close> into \<open>time[10]\<close> and \<open>date[6]\<close>,
  \<open>atoi\<close> on two-byte arrays with no closing null) is not part of this model.
\<close>

record GNSS_Data_Time =
  seconds :: uint8_t
  minutes :: uint8_t
  hour :: uint8_t
  day :: uint8_t
  month :: uint8_t
  year :: uint8_t

definition g_utc_hours :: "uint8_t list" where
  "g_utc_hours = [0, 1, 2, 3, 4, 5]"

definition g_fix_hours :: "uint8_t list" where
  "g_fix_hours = [18, 19, 20, 21, 22, 23]"

definition g_last_day_month :: "uint8_t list" where
  "g_last_day_month = [0, 31, 28, 31, 30, 31, 30, 31, 31, 30, 31, 30, 31]"

text \<open>
  \<open>SIM868_gnss_get_data\<close>, the block "If hour is about to change, then modify it":
  with \<open>minutes == 59\<close> the hour is advanced, an hour that is not below 23 becoming 0.
\<close>

definition gnss_hour_rollover :: "GNSS_Data_Time \<Rightarrow> GNSS_Data_Time" where
  "gnss_hour_rollover t =
     (if minutes t = 59
      then (if hour t < 23 then t\<lparr>hour := hour t + 1\<rparr> else t\<lparr>hour := 0\<rparr>)
      else t)"

text \<open>
  The loop \<open>for(i = 0; i < 6; i++) if(hour == g_utc_hours[i]) hour = g_fix_hours[i];\<close>
  over the indices still to visit.
\<close>

fun fix_hours_loop :: "nat list \<Rightarrow> GNSS_Data_Time \<Rightarrow> GNSS_Data_Time" where
  "fix_hours_loop [] t = t"
| "fix_hours_loop (i # is) t =
     fix_hours_loop is (if hour t = g_utc_hours ! i then t\<lparr>hour := g_fix_hours ! i\<rparr> else t)"

text \<open>
  The block "Adjust hour to UTC-6": the new time and the flag \<open>one_more_day\<close>.
\<close>

definition gnss_adjust_utc6 :: "GNSS_Data_Time \<Rightarrow> GNSS_Data_Time \<times> bool" where
  "gnss_adjust_utc6 t =
     (if 6 \<le> hour t then (t\<lparr>hour := hour t - 6\<rparr>, False)
      else (fix_hours_loop [0..<6] t, True))"

text \<open>Both blocks in the order of the source: the rollover first, the offset second.\<close>

definition gnss_local_time :: "GNSS_Data_Time \<Rightarrow> GNSS_Data_Time \<times> bool" where
  "gnss_local_time t = gnss_adjust_utc6 (gnss_hour_rollover t)"

text \<open>
  The loop \<open>for(i = 0; i < 13; i++) if(month == i) day = g_last_day_month[i];\<close>.
\<close>

fun last_day_loop :: "nat list \<Rightarrow> GNSS_Data_Time \<Rightarrow> GNSS_Data_Time" where
  "last_day_loop [] t = t"
| "last_day_loop (i # is) t =
     last_day_loop is (if month t = of_nat i then t\<lparr>day := g_last_day_month ! i\<rparr> else t)"

text \<open>
  The block "Check if there is one day less compare to UTC-6", run on the parsed day,
  month and year. The year is a \<open>uint8_t\<close>: \<open>year -= 1\<close> wraps at 0.
\<close>

definition gnss_adjust_date :: "bool \<Rightarrow> GNSS_Data_Time \<Rightarrow> GNSS_Data_Time" where
  "gnss_adjust_date one_more_day t =
     (if one_more_day
      then (if day t = 1
            then last_day_loop [0..<13]
                   (if 1 < month t then t\<lparr>month := month t - 1\<rparr>
                    else t\<lparr>month := 12, year := year t - 1\<rparr>)
            else t\<lparr>day := day t - 1\<rparr>)
      else t)"

text \<open>
  The time block and the date block together, as far as the six fields go: the flag that
  the time block leaves is the one that the date block tests.
\<close>

definition gnss_time_and_date :: "GNSS_Data_Time \<Rightarrow> GNSS_Data_Time" where
  "gnss_time_and_date t =
     (case gnss_local_time t of (t', one_more_day) \<Rightarrow> gnss_adjust_date one_more_day t')"


section \<open>GNSS: speed\<close>

text \<open>
  \<open>*speed_kph = atof(speedp) * 1.852;\<close> with \<open>uint8_t *speed_kph\<close>. The operands and
  the product are \<open>double\<close>s: IEEE 754 binary64 numbers (on the Cortex-M3 of the README
  the arithmetic is done in software, one rounding for each operation), every result
  rounded to the nearest of them, a tie to the one with the even significand. A finite
  \<open>double\<close> is taken as the real number it denotes.

  \<open>round_even\<close>: the integer nearest to \<open>y\<close>, the even one of two at the same distance.
\<close>

definition round_even :: "real \<Rightarrow> int" where
  "round_even y =
     (let f = \<lfloor>y\<rfloor>; r = y - of_int f
      in if r < 1 / 2 then f
         else if 1 / 2 < r then f + 1
         else if even f then f else f + 1)"

text \<open>
  The significand and the exponent of a positive \<open>x = m * 2 ^ e\<close>: the significand is
  halved until it is below \<open>2 ^ 53\<close>, then doubled until it is at least \<open>2 ^ 52\<close> or the
  exponent is the least one, \<open>- 1074\<close> (a subnormal number).
\<close>

function scale_down :: "real \<Rightarrow> int \<Rightarrow> real \<times> int" where
  "scale_down m e = (if 2 ^ 53 \<le> m then scale_down (m / 2) (e + 1) else (m, e))"
  by pat_completeness auto
termination
proof (relation "measure (\<lambda>(m, e). nat \<lceil>m\<rceil>)")
  show "wf (measure (\<lambda>(m :: real, e :: int). nat \<lceil>m\<rceil>))" by simp
next
  fix m :: real and e :: int
  assume a: "2 ^ 53 \<le> m"
  then have "m / 2 + 1 \<le> m" by simp
  moreover have "of_int \<lceil>m / 2\<rceil> < m / 2 + 1" by linarith
  ultimately have "of_int \<lceil>m / 2\<rceil> < m" by simp
  then have "\<lceil>m / 2\<rceil> < \<lceil>m\<rceil>" by linarith
  moreover from a have "0 < \<lceil>m\<rceil>" by simp
  ultimately show "((m / 2, e + 1), (m, e)) \<in> measure (\<lambda>(m, e). nat \<lceil>m\<rceil>)"
    by simp
qed

declare scale_down.simps [simp del]

function scale_up :: "real \<Rightarrow> int \<Rightarrow> real \<times> int" where
  "scale_up m e = (if m < 2 ^ 52 \<and> - 1074 < e then scale_up (m * 2) (e - 1) else (m, e))"
  by pat_completeness auto
termination
  by (relation "measure (\<lambda>(m, e). nat (e + 1074))") auto

declare scale_up.simps [simp del]

text \<open>
  The \<open>double\<close> nearest to the real \<open>x\<close>; \<open>None\<close> when the rounded magnitude is
  \<open>2 ^ 1024\<close> or more, where the arithmetic gives an infinity.
\<close>

definition double_of :: "real \<Rightarrow> real option" where
  "double_of x =
     (if x = 0 then Some 0
      else (case scale_down \<bar>x\<bar> 0 of
              (m1, e1) \<Rightarrow>
                (case scale_up m1 e1 of
                   (m, e) \<Rightarrow>
                     (let v = (if 0 \<le> e then of_int (round_even m) * 2 ^ nat e
                               else of_int (round_even m) / 2 ^ nat (- e))
                      in if 2 ^ 1024 \<le> v then None
                         else Some (if x < 0 then - v else v)))))"

text \<open>
  The product of the source. \<open>knots\<close> is the number that the text of the speed field
  denotes; \<open>atof\<close> returns the \<open>double\<close> nearest to it, the constant \<open>1.852\<close> is the
  \<open>double\<close> nearest to 1.852, and the product of two \<open>double\<close>s is the \<open>double\<close>
  nearest to their exact product.
\<close>

definition knots_to_kph :: "real \<Rightarrow> real option" where
  "knots_to_kph knots =
     (case double_of knots of
        None \<Rightarrow> None
      | Some a \<Rightarrow>
          (case double_of 1.852 of
             None \<Rightarrow> None
           | Some c \<Rightarrow> double_of (a * c)))"

text \<open>
  The conversion of a \<open>double\<close> to \<open>uint8_t\<close> that the assignment performs: the
  fractional part is discarded (truncation toward zero); the behaviour is undefined, here
  \<open>None\<close>, when the integral part is not in 0..255.
\<close>

definition double_to_uint8 :: "real \<Rightarrow> uint8_t option" where
  "double_to_uint8 x =
     (if - 1 < x \<and> x < 256
      then Some (word_of_int (if 0 \<le> x then \<lfloor>x\<rfloor> else \<lceil>x\<rceil>))
      else None)"

text \<open>The value stored through \<open>speed_kph\<close>; an infinite product has no integral part.\<close>

definition gnss_speed_kph :: "real \<Rightarrow> uint8_t option" where
  "gnss_speed_kph knots =
     (case knots_to_kph knots of None \<Rightarrow> None | Some p \<Rightarrow> double_to_uint8 p)"


section \<open>C strings\<close>

definition NUL :: char where "NUL = CHR 0x00"
definition CR :: char where "CR = CHR 0x0D"
definition LF :: char where "LF = CHR 0x0A"

definition CRLF :: string where "CRLF = [CR, LF]"

text \<open>The string that a \<open>char\<close> array holds: its bytes before the first null.\<close>

definition cstr :: "string \<Rightarrow> string" where
  "cstr a = takeWhile (\<lambda>c. c \<noteq> NUL) a"

fun is_prefix :: "string \<Rightarrow> string \<Rightarrow> bool" where
  "is_prefix [] ys = True"
| "is_prefix (x # xs) [] = False"
| "is_prefix (x # xs) (y # ys) = (x = y \<and> is_prefix xs ys)"

text \<open>\<open>strstr\<close> on two strings: the offset of the first occurrence of the needle.\<close>

fun strstr :: "string \<Rightarrow> string \<Rightarrow> nat option" where
  "strstr [] needle = (if needle = [] then Some 0 else None)"
| "strstr (c # cs) needle =
     (if is_prefix needle (c # cs) then Some 0 else map_option Suc (strstr cs needle))"

text \<open>
  \<open>strchr\<close> on the bytes from a pointer on: the offset of the first byte equal to
  \<open>c\<close>, the search ending at the terminating null, which is part of the string (so
  \<open>strchr(p, 0)\<close> finds the terminator). An array with no null at all gives \<open>None\<close>.
\<close>

fun strchr :: "string \<Rightarrow> char \<Rightarrow> nat option" where
  "strchr [] c = None"
| "strchr (x # xs) c =
     (if x = c then Some 0 else if x = NUL then None else map_option Suc (strchr xs c))"

text \<open>
  \<open>strtok(p, ",")\<close> on the string at \<open>p\<close>: leading commas are skipped; \<open>None\<close> is
  the null pointer returned when nothing else is left. Otherwise the token, and the offset
  from \<open>p\<close> of the comma that \<open>strtok\<close> overwrites with a null, if one ends the token.
\<close>

definition strtok_comma :: "string \<Rightarrow> (string \<times> nat option) option" where
  "strtok_comma s =
     (let q = dropWhile (\<lambda>c. c = CHR '','') s in
      if q = [] then None
      else let tok = takeWhile (\<lambda>c. c \<noteq> CHR '','') q;
               e = (length s - length q) + length tok
           in Some (tok, if e < length s then Some e else None))"

text \<open>
  \<open>atoi\<close>, as the C library of the target computes it: \<open>(int) strtol(s, NULL, 10)\<close>.
  \<open>strtol\<close> reads white space, an optional sign, then decimal digits up to the first
  other byte; a value outside the range of \<open>long\<close> (32 bits on the Cortex-M3, as
  \<open>int\<close>) is replaced by the nearest bound. The callers store the result in a
  \<open>uint16_t\<close>.
\<close>

definition isspace_c :: "char \<Rightarrow> bool" where
  "isspace_c c = (c = CHR '' '' \<or> c = CHR 0x09 \<or> c = CHR 0x0A \<or> c = CHR 0x0B
                  \<or> c = CHR 0x0C \<or> c = CHR 0x0D)"

definition isdigit_c :: "char \<Rightarrow> bool" where
  "isdigit_c c = (48 \<le> (of_char c :: nat) \<and> (of_char c :: nat) \<le> 57)"

definition digits_value :: "string \<Rightarrow> int" where
  "digits_value s =
     foldl (\<lambda>acc c. acc * 10 + (int (of_char c) - 48)) 0 (takeWhile isdigit_c s)"

text \<open>The value that the digits denote, before the range of \<open>long\<close> is applied.\<close>

definition strtol_value :: "string \<Rightarrow> int" where
  "strtol_value s =
     (case dropWhile isspace_c s of
        [] \<Rightarrow> 0
      | c # cs \<Rightarrow>
          if c = CHR ''-'' then - digits_value cs
          else if c = CHR ''+'' then digits_value cs
          else digits_value (c # cs))"

definition INT_MAX :: int where "INT_MAX = 2147483647"
definition INT_MIN :: int where "INT_MIN = - 2147483648"

definition atoi :: "string \<Rightarrow> int" where
  "atoi s =
     (let v = strtol_value s
      in if INT_MAX < v then INT_MAX else if v < INT_MIN then INT_MIN else v)"

text \<open>\<open>sprintf("%u", n)\<close>: the decimal digits of an unsigned number.\<close>

fun decimal :: "nat \<Rightarrow> string" where
  "decimal n =
     (if n < 10 then [char_of (48 + n)] else decimal (n div 10) @ [char_of (48 + n mod 10)])"

section \<open>Reply parser\<close>

datatype parse_out = Reply_error | Stored uint16_t | Atoi_of_null

text \<open>
  The loop \<open>for (i=0; i<index; i++) { p = strchr(p, divider); if (!p) return ERROR_REPLY; p++; }\<close>
  of \<open>parse_reply\<close>, on the array \<open>buf\<close> and the offset \<open>p\<close> into it; the first
  argument counts the rounds left.
\<close>

fun skip_dividers :: "nat \<Rightarrow> char \<Rightarrow> string \<Rightarrow> nat \<Rightarrow> nat option" where
  "skip_dividers 0 divider buf p = Some p"
| "skip_dividers (Suc n) divider buf p =
     (case strchr (drop p buf) divider of
        None \<Rightarrow> None
      | Some j \<Rightarrow> skip_dividers n divider buf (p + j + 1))"

text \<open>
  \<open>parse_reply(reply, v, divider, index)\<close> on the session buffer \<open>buf\<close>: what becomes
  of \<open>*v\<close>, and the buffer afterwards (\<open>strtok\<close> writes into it). \<open>Atoi_of_null\<close> is
  the call \<open>atoi(p)\<close> on the null pointer that \<open>strtok\<close> returns for a rest made of
  commas only.
\<close>

definition parse_reply_buffer ::
  "string \<Rightarrow> string \<Rightarrow> char \<Rightarrow> nat \<Rightarrow> parse_out \<times> string" where
  "parse_reply_buffer buf reply divider index =
     (case strstr (cstr buf) (cstr reply) of
        None \<Rightarrow> (Reply_error, buf)
      | Some i \<Rightarrow>
          (case skip_dividers index divider buf (i + length (cstr reply)) of
             None \<Rightarrow> (Reply_error, buf)
           | Some p \<Rightarrow>
               (let rest = cstr (drop p buf) in
                if 1 < length rest
                then (case strtok_comma rest of
                        None \<Rightarrow> (Atoi_of_null, buf)
                      | Some (tok, e) \<Rightarrow>
                          (Stored (word_of_int (atoi tok)),
                           case e of None \<Rightarrow> buf | Some j \<Rightarrow> buf[p + j := NUL]))
                else (Stored (word_of_int (atoi rest)), buf))))"

text \<open>
  The reply parser in the words of the specification: locate the token (reply error if
  absent); from its end skip \<open>k\<close> occurrences of the divider (reply error if they run
  out); the value is the integer of the following field, which extends up to the next
  divider or the end of the string.
\<close>

fun spec_skip :: "nat \<Rightarrow> char \<Rightarrow> string \<Rightarrow> string option" where
  "spec_skip 0 d s = Some s"
| "spec_skip (Suc k) d s =
     (if d \<in> set s then spec_skip k d (tl (dropWhile (\<lambda>c. c \<noteq> d) s)) else None)"

definition spec_field_text :: "string \<Rightarrow> string \<Rightarrow> char \<Rightarrow> nat \<Rightarrow> string option" where
  "spec_field_text buf token d k =
     (case strstr (cstr buf) (cstr token) of
        None \<Rightarrow> None
      | Some i \<Rightarrow> spec_skip k d (drop (i + length (cstr token)) (cstr buf)))"

definition spec_parse_reply :: "string \<Rightarrow> string \<Rightarrow> char \<Rightarrow> nat \<Rightarrow> parse_out" where
  "spec_parse_reply buf token d k =
     (case spec_field_text buf token d k of
        None \<Rightarrow> Reply_error
      | Some rest \<Rightarrow> Stored (word_of_int (atoi (takeWhile (\<lambda>c. c \<noteq> d) rest))))"

text \<open>The bytes that \<open>atoi\<close> reads as part of a number.\<close>

definition atoi_byte :: "char \<Rightarrow> bool" where
  "atoi_byte c = (isspace_c c \<or> c = CHR ''-'' \<or> c = CHR ''+'' \<or> isdigit_c c)"

section \<open>The modem on its serial link\<close>

definition REPLY_BUFFER_LENGTH :: nat where "REPLY_BUFFER_LENGTH = 255"
definition DEFAULT_TIMEOUT :: uint16_t where "DEFAULT_TIMEOUT = 500"
definition MULTILINE :: uint8_t where "MULTILINE = 1"
definition SINGLE_LINE :: uint8_t where "SINGLE_LINE = 0"

definition CONNECTING :: uint8_t where "CONNECTING = 0"
definition CONNECTED :: uint8_t where "CONNECTED = 1"
definition CLOSING :: uint8_t where "CLOSING = 2"
definition CLOSED :: uint8_t where "CLOSED = 3"

definition GET :: uint8_t where "GET = 0"
definition POST :: uint8_t where "POST = 1"

definition OK :: uint16_t where "OK = 200"
definition CREATED :: uint16_t where "CREATED = 201"

definition NOT_REGISTERED :: uint16_t where "NOT_REGISTERED = 0"
definition REGISTERED_HOME_NET :: uint16_t where "REGISTERED_HOME_NET = 1"
definition SEARCHING :: uint16_t where "SEARCHING = 2"
definition REGISTRATION_DENIED :: uint16_t where "REGISTRATION_DENIED = 3"
definition REGISTRED_NO_HOME_NET :: uint16_t where "REGISTRED_NO_HOME_NET = 5"

text \<open>
  \<open>struct Http_Header\<close> and \<open>struct Bearer_Service\<close>, the strings they point to. The
  source declares \<open>char *apn, *user, pwd;\<close>: \<open>pwd\<close> is a single \<open>char\<close>, and the only
  use of it is as the argument of a \<open>%s\<close> conversion, which C leaves undefined. The
  field \<open>pwd\<close> here is the text which that conversion produces, whatever it is, and the
  conversion is recorded as an undefined step where it happens.
\<close>

record Http_Header =
  user_agent :: string
  user_data :: string
  content_type :: string
  root_url :: string
  web_service :: string
  json_structure :: string

record Bearer_Service =
  apn :: string
  user :: string
  pwd :: string

text \<open>
  Two records of what the run did, kept beside the program's own state: the calls of
  \<open>http_init\<close> and \<open>http_start\<close>, and the steps whose behaviour C leaves undefined.
\<close>

datatype call = Call_http_init | Call_http_start uint8_t

datatype undefined_step = Write_outside nat | Atoi_null | Printf_s_of_char

text \<open>
  The state the driver works on.
  \<^item> \<open>sent\<close>: every string handed to \<open>_sim_send_data\<close>, in order.
  \<^item> \<open>rx\<close>: the bytes on their way from the modem, grouped by the polling tick of
    \<open>read_line\<close> at which they are there to be read; the head is the content of the
    UART receive buffer now.
  \<^item> \<open>modem\<close>: the modem itself, any function from all that was sent so far and the
    bytes still on their way to the bytes on their way after the write.
  \<^item> \<open>atoi_null\<close>: the value that \<open>atoi\<close> of a null pointer leaves in a
    \<open>uint16_t\<close>, should the run get there.
  \<^item> the globals of sim868.c; \<open>g_sim_buffer\<close> is an array of
    \<open>REPLY_BUFFER_LENGTH\<close> bytes.
\<close>

record world =
  sent :: "string list"
  rx :: "string list"
  modem :: "string list \<Rightarrow> string list \<Rightarrow> string list"
  atoi_null :: uint16_t
  g_sim_buffer :: string
  g_http_buffer :: string
  g_http_status_code :: uint16_t
  gs_http_header :: Http_Header
  gs_bearer_config :: Bearer_Service
  undefined_steps :: "undefined_step list"
  calls :: "call list"

text \<open>\<open>_sim_clear_buffer()\<close>: the bytes received and not yet read are dropped.\<close>

definition sim_clear_buffer :: "world \<Rightarrow> world" where
  "sim_clear_buffer w = w\<lparr>rx := (case rx w of [] \<Rightarrow> [] | chunk # later \<Rightarrow> [] # later)\<rparr>"

text \<open>\<open>_sim_send_data(s)\<close>: the string goes out and the modem reacts.\<close>

definition sim_send_data :: "string \<Rightarrow> world \<Rightarrow> world" where
  "sim_send_data s w = w\<lparr>sent := sent w @ [s], rx := modem w (sent w @ [s]) (rx w)\<rparr>"

text \<open>
  \<open>_debug_delay(1)\<close> inside \<open>read_line\<close>: one tick passes and the bytes of the next
  group join those in the receive buffer.
\<close>

definition debug_delay_tick :: "world \<Rightarrow> world" where
  "debug_delay_tick w =
     w\<lparr>rx := (case rx w of chunk # next # later \<Rightarrow> (chunk @ next) # later | _ \<Rightarrow> rx w)\<rparr>"

section \<open>Line reader\<close>

text \<open>
  \<open>g_sim_buffer[reply_idx] = c\<close> with \<open>uint8_t reply_idx\<close>: index 255 is outside the
  array of 255 bytes; such a write is recorded and the array left as it is.
\<close>

definition store_char :: "uint8_t \<Rightarrow> char \<Rightarrow> world \<Rightarrow> world" where
  "store_char reply_idx c w =
     (if unat reply_idx < REPLY_BUFFER_LENGTH
      then w\<lparr>g_sim_buffer := (g_sim_buffer w)[unat reply_idx := c]\<rparr>
      else w\<lparr>undefined_steps := undefined_steps w @ [Write_outside (unat reply_idx)]\<rparr>)"

text \<open>
  The inner loop \<open>while(_sim_data_available())\<close> of \<open>read_line\<close> on the bytes in the
  receive buffer: whether the line ended (\<open>time_out = 0; break;\<close>), the bytes left
  unread, \<open>reply_idx\<close> and the state.
\<close>

fun drain_chars :: "uint8_t \<Rightarrow> string \<Rightarrow> uint8_t \<Rightarrow> world \<Rightarrow> bool \<times> string \<times> uint8_t \<times> world" where
  "drain_chars lines [] reply_idx w = (False, [], reply_idx, w)"
| "drain_chars lines (c # cs) reply_idx w =
     (if c = CR then drain_chars lines cs reply_idx w
      else if c = LF \<and> reply_idx = 0 then drain_chars lines cs reply_idx w
      else if c = LF \<and> lines = 0 then (True, cs, reply_idx, w)
      else drain_chars lines cs (reply_idx + 1) (store_char reply_idx c w))"

definition sim_drain :: "uint8_t \<Rightarrow> uint8_t \<Rightarrow> world \<Rightarrow> bool \<times> uint8_t \<times> world" where
  "sim_drain lines reply_idx w =
     (case rx w of
        [] \<Rightarrow> (False, reply_idx, w)
      | chunk # later \<Rightarrow>
          (case drain_chars lines chunk reply_idx w of
             (ended, left, reply_idx', w') \<Rightarrow> (ended, reply_idx', w'\<lparr>rx := left # later\<rparr>)))"

text \<open>
  The outer loop \<open>while (time_out--)\<close>; the first argument is \<open>time_out\<close> as the test
  reads it. The counter only goes down inside the loop, so it is a \<open>nat\<close> here.
\<close>

fun read_line_loop :: "nat \<Rightarrow> uint8_t \<Rightarrow> uint8_t \<Rightarrow> world \<Rightarrow> uint8_t \<times> world" where
  "read_line_loop 0 lines reply_idx w = (reply_idx, w)"
| "read_line_loop (Suc time_out) lines reply_idx w =
     (if REPLY_BUFFER_LENGTH < unat reply_idx then (reply_idx, w)
      else (case sim_drain lines reply_idx w of
              (ended, reply_idx', w') \<Rightarrow>
                if ended \<or> time_out = 0 then (reply_idx', w')
                else read_line_loop time_out lines reply_idx' (debug_delay_tick w')))"

text \<open>\<open>read_line\<close>, with the index at which it writes the closing null.\<close>

definition read_line_idx :: "uint16_t \<Rightarrow> uint8_t \<Rightarrow> world \<Rightarrow> uint8_t" where
  "read_line_idx time_out lines w = fst (read_line_loop (unat time_out) lines 0 w)"

definition read_line :: "uint16_t \<Rightarrow> uint8_t \<Rightarrow> world \<Rightarrow> world" where
  "read_line time_out lines w =
     (case read_line_loop (unat time_out) lines 0 w of
        (reply_idx, w') \<Rightarrow> store_char reply_idx NUL w')"

section \<open>Command transceiver\<close>

definition get_reply :: "string \<Rightarrow> uint16_t \<Rightarrow> world \<Rightarrow> world" where
  "get_reply cmd time_out w =
     read_line time_out SINGLE_LINE (sim_send_data CRLF (sim_send_data cmd (sim_clear_buffer w)))"

text \<open>\<open>send_check_reply\<close>: 0 when the reply is the expected string, 1 otherwise.\<close>

definition send_check_reply :: "string \<Rightarrow> string \<Rightarrow> uint16_t \<Rightarrow> world \<Rightarrow> uint8_t \<times> world" where
  "send_check_reply cmd reply time_out w =
     (let w' = get_reply cmd time_out w
      in (if cstr (g_sim_buffer w') = cstr reply then 0 else 1, w'))"

text \<open>
  \<open>parse_reply\<close> on the state: \<open>Inl\<close> the error code returned, \<open>Inr\<close> the value
  stored through \<open>v\<close> (which is left alone on an error).
\<close>

definition parse_reply :: "string \<Rightarrow> char \<Rightarrow> uint8_t \<Rightarrow> world \<Rightarrow> (uint8_t + uint16_t) \<times> world" where
  "parse_reply reply divider index w =
     (case parse_reply_buffer (g_sim_buffer w) reply divider (unat index) of
        (Reply_error, buf) \<Rightarrow> (Inl ERROR_REPLY, w)
      | (Stored x, buf) \<Rightarrow> (Inr x, w\<lparr>g_sim_buffer := buf\<rparr>)
      | (Atoi_of_null, buf) \<Rightarrow>
          (Inr (atoi_null w), w\<lparr>undefined_steps := undefined_steps w @ [Atoi_null]\<rparr>))"

definition send_parse_reply ::
  "string \<Rightarrow> string \<Rightarrow> char \<Rightarrow> uint8_t \<Rightarrow> uint16_t \<Rightarrow> world \<Rightarrow> (uint8_t + uint16_t) \<times> world" where
  "send_parse_reply cmd reply divider index time_out w =
     (case parse_reply reply divider index (get_reply cmd time_out w) of
        (Inl e, w') \<Rightarrow> (Inl ERROR_REPLY, w')
      | (Inr x, w') \<Rightarrow> (Inr x, w'))"

section \<open>Commands built with \<open>sprintf\<close>\<close>

definition quoted :: "string \<Rightarrow> string" where
  "quoted s = [CHR 0x22] @ s @ [CHR 0x22]"

datatype step =
  Step string "nat option" string uint16_t uint8_t

text \<open>
  A run of \<open>if (send_check_reply(cmd, reply, time_out)) return err;\<close> statements. Each
  step carries the command, the size of the local array the command was formatted into
  with \<open>sprintf\<close> (\<open>None\<close> for a string literal), the expected reply, the timeout and the
  error returned on a mismatch. A command that does not fit its array with the closing
  null is recorded as a write outside it, at the first index past the array.
\<close>

definition sprintf_into :: "nat option \<Rightarrow> string \<Rightarrow> world \<Rightarrow> world" where
  "sprintf_into room s w =
     (case room of
        None \<Rightarrow> w
      | Some n \<Rightarrow>
          if length s < n then w
          else w\<lparr>undefined_steps := undefined_steps w @ [Write_outside n]\<rparr>)"

fun check_replies :: "step list \<Rightarrow> world \<Rightarrow> uint8_t \<times> world" where
  "check_replies [] w = (NO_ERROR, w)"
| "check_replies (Step cmd room reply time_out err # steps) w =
     (case send_check_reply cmd reply time_out (sprintf_into room cmd w) of
        (r, w') \<Rightarrow> if r \<noteq> 0 then (err, w') else check_replies steps w')"

section \<open>GPRS and GSM\<close>

definition APN_BUFFER_LENGTH :: nat where "APN_BUFFER_LENGTH = 50"

text \<open>\<open>gprs_query\<close>: the bearer status, or \<open>ERROR_REPLY\<close> in its place.\<close>

definition gprs_query :: "world \<Rightarrow> uint16_t \<times> world" where
  "gprs_query w =
     (case send_parse_reply ''AT+SAPBR=2,1'' ''+SAPBR: '' (CHR '','') 1 10000 w of
        (Inl e, w') \<Rightarrow> (ucast ERROR_REPLY, w')
      | (Inr bearer_status, w') \<Rightarrow> (bearer_status, w'))"

text \<open>
  \<open>SIM868_gprs_enable\<close>, first part (up to \<open>uint8_t bearer_state = gprs_query();\<close>):
  \<open>Inl\<close> for a return from inside it, else \<open>module_state\<close>, \<open>bearer_state\<close> and the
  state. The status of \<open>gprs_query\<close> is cut to 8 bits by the assignment.
\<close>

definition gprs_enable_query ::
  "bool \<Rightarrow> world \<Rightarrow> (uint8_t \<times> world) + (uint16_t \<times> uint8_t \<times> world)" where
  "gprs_enable_query state w =
     (case send_parse_reply ''AT+CGATT?'' ''+CGATT: '' (CHR '','') 0 20000 w of
        (Inl e, w1) \<Rightarrow> Inl (ERROR_REPLY, w1)
      | (Inr module_state, w1) \<Rightarrow>
          (case (if state \<and> module_state = 0
                 then check_replies [Step ''AT+CGATT=1'' None ''OK'' 20000 ERROR_GPRS_SERVICE] w1
                 else (NO_ERROR, w1)) of
             (r, w2) \<Rightarrow>
               if r \<noteq> NO_ERROR then Inl (r, w2)
               else (case gprs_query w2 of
                       (bearer_status, w3) \<Rightarrow> Inr (module_state, ucast bearer_status, w3))))"

text \<open>The commands of the branch that opens the bearer, in the order of the source.\<close>

definition bearer_contype_cmd :: string where
  "bearer_contype_cmd = ''AT+SAPBR=3,1,'' @ quoted ''CONTYPE'' @ '','' @ quoted ''GPRS''"

definition bearer_apn_cmd :: "Bearer_Service \<Rightarrow> string" where
  "bearer_apn_cmd cfg = ''AT+SAPBR=3,1,'' @ quoted ''APN'' @ '','' @ quoted (apn cfg)"

definition bearer_user_cmd :: "Bearer_Service \<Rightarrow> string" where
  "bearer_user_cmd cfg = ''AT+SAPBR=3,1,'' @ quoted ''USER'' @ '','' @ quoted (user cfg)"

definition bearer_pwd_cmd :: "Bearer_Service \<Rightarrow> string" where
  "bearer_pwd_cmd cfg = ''AT+SAPBR=3,1,'' @ quoted ''PWD'' @ '','' @ quoted (pwd cfg)"

definition bearer_open_cmd :: string where
  "bearer_open_cmd = ''AT+SAPBR=1,1''"

definition bearer_close_cmd :: string where
  "bearer_close_cmd = ''AT+SAPBR=0,1''"

definition open_sequence :: "Bearer_Service \<Rightarrow> string list" where
  "open_sequence cfg =
     [bearer_contype_cmd, bearer_apn_cmd cfg, bearer_user_cmd cfg, bearer_pwd_cmd cfg,
      bearer_open_cmd]"

text \<open>
  The branch that opens the bearer. Before the fourth command is formatted,
  \<open>sprintf(bearer_pwd, "...%s...", gs_bearer_config.pwd)\<close> passes a \<open>char\<close> to \<open>%s\<close>.
\<close>

definition gprs_open_bearer :: "world \<Rightarrow> uint8_t \<times> world" where
  "gprs_open_bearer w =
     (case check_replies
             [Step bearer_contype_cmd None ''OK'' 10000 ERROR_REPLY,
              Step (bearer_apn_cmd (gs_bearer_config w)) (Some APN_BUFFER_LENGTH) ''OK'' 10000 ERROR_REPLY,
              Step (bearer_user_cmd (gs_bearer_config w)) (Some APN_BUFFER_LENGTH) ''OK'' 10000 ERROR_REPLY]
             w of
        (r0, w0) \<Rightarrow>
          if r0 \<noteq> NO_ERROR then (r0, w0)
          else
            (case check_replies
                    [Step (bearer_pwd_cmd (gs_bearer_config w)) (Some APN_BUFFER_LENGTH) ''OK'' 10000 ERROR_REPLY,
                     Step bearer_open_cmd None ''OK'' 30000 ERROR_GPRS_CONTEXT]
                    (w0\<lparr>undefined_steps := undefined_steps w0 @ [Printf_s_of_char]\<rparr>) of
               (r, w1) \<Rightarrow>
                 if r \<noteq> NO_ERROR then (r, w1)
                 else (case gprs_query w1 of
                         (bearer_status, w2) \<Rightarrow>
                           if bearer_status \<noteq> ucast CONNECTED then (ERROR_GPRS_CONTEXT, w2)
                           else (NO_ERROR, w2))))"

text \<open>
  The branch that closes the bearer. The result of the second query only goes into the
  local \<open>error_status\<close>, which the function never returns.
\<close>

definition gprs_close_bearer :: "world \<Rightarrow> uint8_t \<times> world" where
  "gprs_close_bearer w =
     (case check_replies [Step bearer_close_cmd None ''OK'' 30000 ERROR_GPRS_CONTEXT] w of
        (r, w1) \<Rightarrow>
          if r \<noteq> NO_ERROR then (r, w1)
          else (case gprs_query w1 of (bearer_status, w2) \<Rightarrow> (NO_ERROR, w2)))"

definition gprs_enable_detach :: "bool \<Rightarrow> uint16_t \<Rightarrow> world \<Rightarrow> uint8_t \<times> world" where
  "gprs_enable_detach state module_state w =
     (if \<not> state \<and> module_state \<noteq> 0
      then check_replies [Step ''AT+CGATT=0'' None ''OK'' 20000 ERROR_GPRS_SERVICE] w
      else (NO_ERROR, w))"

text \<open>\<open>SIM868_gprs_enable\<close>, second part: from the test of \<open>bearer_state\<close> to the end.\<close>

definition gprs_enable_act :: "bool \<Rightarrow> uint16_t \<Rightarrow> uint8_t \<Rightarrow> world \<Rightarrow> uint8_t \<times> world" where
  "gprs_enable_act state module_state bearer_state w =
     (case (if state \<and> bearer_state = CLOSED then gprs_open_bearer w
            else if \<not> state \<and> bearer_state = CONNECTED then gprs_close_bearer w
            else (NO_ERROR, w)) of
        (r, w1) \<Rightarrow>
          if r \<noteq> NO_ERROR then (r, w1) else gprs_enable_detach state module_state w1)"

definition SIM868_gprs_enable :: "bool \<Rightarrow> world \<Rightarrow> uint8_t \<times> world" where
  "SIM868_gprs_enable state w =
     (case gprs_enable_query state w of
        Inl r \<Rightarrow> r
      | Inr (module_state, bearer_state, w1) \<Rightarrow> gprs_enable_act state module_state bearer_state w1)"

text \<open>The strings sent between two states of one run.\<close>

definition issued :: "world \<Rightarrow> world \<Rightarrow> string list" where
  "issued w w' = drop (length (sent w)) (sent w')"

text \<open>\<open>gprs_network_rssi\<close>.\<close>

definition gprs_network_rssi :: "world \<Rightarrow> uint8_t \<times> world" where
  "gprs_network_rssi w =
     (case send_parse_reply ''AT+CSQ'' ''+CSQ: '' (CHR '','') 0 DEFAULT_TIMEOUT w of
        (Inl e, w') \<Rightarrow> (ERROR_REPLY, w')
      | (Inr state, w') \<Rightarrow>
          if state < 9 \<and> state > 32 then (ERROR_NETWORK_RSSI, w') else (NO_ERROR, w'))"

text \<open>
  \<open>gsm_network_registration\<close>. The \<open>switch(status)\<close> of the loop body: the value of
  \<open>error_status\<close> after it. \<open>case SEARCHING\<close> and \<open>case REGISTRATION_DENIED\<close> only
  print, and leave \<open>error_status\<close> as it was.
\<close>

definition registration_switch :: "uint16_t \<Rightarrow> uint8_t \<Rightarrow> uint8_t" where
  "registration_switch status error_status =
     (if status = NOT_REGISTERED then ERROR_NETWORK_REGISTRATION
      else if status = REGISTERED_HOME_NET \<or> status = REGISTRED_NO_HOME_NET then NO_ERROR
      else if status = SEARCHING then error_status
      else if status = REGISTRATION_DENIED then error_status
      else ERROR_REPLY)"

text \<open>
  One round of the inner loop, on the locals \<open>status\<close> and \<open>error_status\<close> and the
  state: the poll and the \<open>switch\<close>. A poll that fails leaves \<open>status\<close> as it was.
  (\<open>delay_seconds\<close> only waits.)
\<close>

definition registration_poll :: "uint16_t \<times> uint8_t \<times> world \<Rightarrow> uint16_t \<times> uint8_t \<times> world" where
  "registration_poll s =
     (case s of
        (status, error_status, w) \<Rightarrow>
          (case send_parse_reply ''AT+CREG?'' ''+CREG: '' (CHR '','') 1 DEFAULT_TIMEOUT w of
             (r, w') \<Rightarrow>
               (let status' = (case r of Inl e \<Rightarrow> status | Inr v \<Rightarrow> v)
                in (status', registration_switch status' error_status, w'))))"

text \<open>
  \<open>while (seconds > 0) { ...; seconds -= 15; }\<close>, entered with \<open>seconds = 30\<close>: the counter
  (\<open>secs\<close> here) takes the values 30, 15 and 0 and never wraps, so it is a \<open>nat\<close>.
\<close>

fun registration_seconds_loop ::
  "nat \<Rightarrow> uint16_t \<times> uint8_t \<times> world \<Rightarrow> uint16_t \<times> uint8_t \<times> world" where
  "registration_seconds_loop secs s =
     (if 0 < secs then registration_seconds_loop (secs - 15) (registration_poll s) else s)"

declare registration_seconds_loop.simps [simp del]

text \<open>\<open>for(minutes = 0; minutes < 2; minutes++) { seconds = 30; ... }\<close>.\<close>

function registration_minutes_loop ::
  "nat \<Rightarrow> uint16_t \<times> uint8_t \<times> world \<Rightarrow> uint16_t \<times> uint8_t \<times> world" where
  "registration_minutes_loop mins s =
     (if mins < 2
      then registration_minutes_loop (mins + 1) (registration_seconds_loop 30 s)
      else s)"
  by pat_completeness auto
termination
  by (relation "measure (\<lambda>(mins, s). 2 - mins)") auto

declare registration_minutes_loop.simps [simp del]

text \<open>
  The locals \<open>status\<close> and \<open>error_status\<close> are not initialised: their first values are
  arguments.
\<close>

definition gsm_network_registration :: "uint16_t \<Rightarrow> uint8_t \<Rightarrow> world \<Rightarrow> uint8_t \<times> world" where
  "gsm_network_registration status0 error_status0 w =
     (case registration_minutes_loop 0 (status0, error_status0, w) of
        (status, error_status, w') \<Rightarrow> (error_status, w'))"

section \<open>HTTP\<close>

definition CONTENT_BUFFER_LENGTH :: nat where "CONTENT_BUFFER_LENGTH = 42"
definition UD_BUFFER_LENGTH :: nat where "UD_BUFFER_LENGTH = 52"
definition URL_BUFFER_LENGTH :: nat where "URL_BUFFER_LENGTH = 55"

text \<open>
  \<open>http_init\<close>. The reply to the first \<open>AT+HTTPTERM\<close> is not looked at.
\<close>

definition http_init :: "world \<Rightarrow> uint8_t \<times> world" where
  "http_init w0 =
     (let w = w0\<lparr>calls := calls w0 @ [Call_http_init]\<rparr>;
          h = gs_http_header w
      in case send_check_reply ''AT+HTTPTERM'' ''OK'' DEFAULT_TIMEOUT w of
           (r, w1) \<Rightarrow>
             check_replies
               [Step ''AT+HTTPINIT'' None ''OK'' DEFAULT_TIMEOUT ERROR_HTTP_SERVICE,
                Step (''AT+HTTPPARA='' @ quoted ''CID'' @ '',1'') None ''OK'' DEFAULT_TIMEOUT ERROR_REPLY,
                Step (''AT+HTTPPARA='' @ quoted ''UA'' @ '','' @ quoted (user_agent h))
                  (Some 35) ''OK'' DEFAULT_TIMEOUT ERROR_REPLY,
                Step (''AT+HTTPPARA='' @ quoted ''CONTENT'' @ '','' @ quoted (content_type h))
                  (Some CONTENT_BUFFER_LENGTH) ''OK'' DEFAULT_TIMEOUT ERROR_REPLY,
                Step (''AT+HTTPPARA='' @ quoted ''USERDATA'' @ '','' @ quoted (user_data h))
                  (Some UD_BUFFER_LENGTH) ''OK'' DEFAULT_TIMEOUT ERROR_REPLY,
                Step (''AT+HTTPPARA='' @ quoted ''URL'' @ '','' @ quoted (root_url h @ web_service h))
                  (Some URL_BUFFER_LENGTH) ''OK'' DEFAULT_TIMEOUT ERROR_REPLY]
               w1)"

text \<open>
  \<open>http_action\<close>, the block "Only for POST method": the payload is announced with
  the literal command \<open>AT+HTTPDATA=200,8000\<close> and then sent as a command of its own.
\<close>

definition http_data_cmd :: string where
  "http_data_cmd = ''AT+HTTPDATA=200,8000''"

definition http_post_data :: "world \<Rightarrow> uint8_t \<times> world" where
  "http_post_data w =
     (case send_check_reply http_data_cmd ''DOWNLOAD'' DEFAULT_TIMEOUT w of
        (r, w1) \<Rightarrow>
          if r \<noteq> 0 then (ERROR_REPLY, w1)
          else (case send_check_reply (json_structure (gs_http_header w1)) ''OK'' 16000 w1 of
                  (r2, w2) \<Rightarrow>
                    if r2 \<noteq> 0 then (ERROR_JSON_STRUCTURE, w2) else (NO_ERROR, w2)))"

text \<open>
  \<open>http_action\<close> from "Build the Http action query" on: the request, the line with
  the status, and the status kept in \<open>g_http_status_code\<close> when it is neither 200 nor
  201. \<open>AT+HTTPACTION=\<close> and the digits of a \<open>uint8_t\<close> fit the 18 bytes of
  \<open>http_method\<close>; the text formatted into the 18 bytes of \<open>http_status\<close> for the
  debug output does not.
\<close>

definition http_request :: "uint16_t \<Rightarrow> uint8_t \<Rightarrow> world \<Rightarrow> uint8_t \<times> world" where
  "http_request time_out method w =
     (case send_check_reply (''AT+HTTPACTION='' @ decimal (unat method)) ''OK'' time_out w of
        (r, w1) \<Rightarrow>
          if r \<noteq> 0 then (ERROR_HTTP_REQUEST, w1)
          else (case parse_reply ''+HTTPACTION: '' (CHR '','') 1
                       (read_line time_out SINGLE_LINE w1) of
                  (Inl e, w2) \<Rightarrow> (ERROR_REPLY, w2)
                | (Inr status, w2) \<Rightarrow>
                    (let w3 = sprintf_into (Some 18)
                                (''Status code: '' @ decimal (unat status) @ CRLF @ CRLF) w2
                     in if status = OK \<or> status = CREATED then (NO_ERROR, w3)
                        else (ERROR_HTTP_STATUS_CODE, w3\<lparr>g_http_status_code := status\<rparr>))))"

definition http_action :: "uint16_t \<Rightarrow> uint8_t \<Rightarrow> world \<Rightarrow> uint8_t \<times> world" where
  "http_action time_out method w =
     (case (if method \<noteq> 0 then http_post_data w else (NO_ERROR, w)) of
        (r, w1) \<Rightarrow> if r \<noteq> NO_ERROR then (r, w1) else http_request time_out method w1)"

text \<open>
  The payload length that a command \<open>AT+HTTPDATA=<length>,<time>\<close> declares to the
  modem.
\<close>

definition declared_length :: "string \<Rightarrow> nat option" where
  "declared_length cmd =
     (if is_prefix ''AT+HTTPDATA='' cmd then Some (nat (atoi (drop 12 cmd))) else None)"

text \<open>\<open>strcpy(dst, src)\<close> on two arrays: the string of \<open>src\<close> and its null go to the front of \<open>dst\<close>.\<close>

definition strcpy :: "string \<Rightarrow> string \<Rightarrow> string" where
  "strcpy dst src = cstr src @ [NUL] @ drop (length (cstr src) + 1) dst"

definition http_read_all :: "world \<Rightarrow> uint8_t \<times> world" where
  "http_read_all w =
     (let w1 = get_reply ''AT+HTTPREAD'' DEFAULT_TIMEOUT w
      in if strstr (cstr (g_sim_buffer w1)) ''+HTTPREAD: '' = None then (ERROR_REPLY, w1)
         else (let w2 = read_line 5000 SINGLE_LINE w1
               in (NO_ERROR, w2\<lparr>g_http_buffer := strcpy (g_http_buffer w2) (g_sim_buffer w2)\<rparr>)))"

definition http_start :: "uint8_t \<Rightarrow> world \<Rightarrow> uint8_t \<times> world" where
  "http_start method w0 =
     (let w = w0\<lparr>calls := calls w0 @ [Call_http_start method]\<rparr>
      in case http_action 30000 method w of
           (e, w1) \<Rightarrow>
             if e \<noteq> 0 then (e, w1)
             else (case http_read_all w1 of
                     (e2, w2) \<Rightarrow>
                       if e2 \<noteq> 0 then (e2, w2)
                       else check_replies [Step ''AT+HTTPTERM'' None ''OK'' DEFAULT_TIMEOUT ERROR_REPLY] w2))"

text \<open>
  The two loops \<open>while(attempts--)\<close> of \<open>SIM868_http_send_request\<close>. The first argument
  is \<open>attempts\<close> as the test of the \<open>while\<close> reads it; inside a loop the counter only goes
  down, so it is a \<open>nat\<close> here. The result is \<open>Some\<close> of the value returned from inside
  the loop, or \<open>None\<close> when the loop is left, with \<open>error_status\<close> and the state.
\<close>

fun http_init_loop :: "nat \<Rightarrow> uint8_t \<Rightarrow> world \<Rightarrow> uint8_t option \<times> uint8_t \<times> world" where
  "http_init_loop 0 error_status w = (None, error_status, w)"
| "http_init_loop (Suc attempts) error_status w =
     (case http_init w of
        (e, w') \<Rightarrow>
          if e = NO_ERROR then (None, e, w')
          else if attempts = 0 then (Some ERROR_HTTP_SERVICE, e, w')
          else http_init_loop attempts e w')"

text \<open>
  In the second loop the test \<open>if(attempts-- == 0)\<close> decrements the counter once more.
\<close>

fun http_start_loop ::
  "nat \<Rightarrow> uint8_t \<Rightarrow> uint8_t \<Rightarrow> world \<Rightarrow> uint8_t option \<times> uint8_t \<times> world" where
  "http_start_loop 0 method error_status w = (None, error_status, w)"
| "http_start_loop (Suc attempts) method error_status w =
     (case http_start method w of
        (e, w') \<Rightarrow>
          if e = NO_ERROR then (None, e, w')
          else if attempts = 0 then (Some ERROR_HTTP_REQUEST, e, w')
          else http_start_loop (attempts - 1) method e w')"

text \<open>
  \<open>SIM868_http_send_request\<close>. The local \<open>error_status\<close> is not initialised: its first
  value is an argument.
\<close>

definition SIM868_http_send_request ::
  "uint8_t \<Rightarrow> uint8_t \<Rightarrow> uint8_t \<Rightarrow> world \<Rightarrow> uint8_t \<times> world" where
  "SIM868_http_send_request method max_attempts error_status0 w =
     (case http_init_loop (unat max_attempts) error_status0 w of
        (Some r, e, w1) \<Rightarrow> (r, w1)
      | (None, e, w1) \<Rightarrow>
          (case http_start_loop (unat max_attempts) method e w1 of
             (Some r, e2, w2) \<Rightarrow> (r, w2)
           | (None, e2, w2) \<Rightarrow> (e2, w2)))"

section \<open>What a run sends\<close>

text \<open>
  \<open>sends cmds w w'\<close>: from \<open>w\<close> to \<open>w'\<close> exactly the strings \<open>cmds\<close> went out, no call of
  \<open>http_init\<close> or \<open>http_start\<close> was recorded, and the modem and the configuration are
  the same.
\<close>

definition sends :: "string list \<Rightarrow> world \<Rightarrow> world \<Rightarrow> bool" where
  "sends cmds w w' =
     (sent w' = sent w @ cmds \<and> calls w' = calls w \<and> modem w' = modem w
      \<and> gs_http_header w' = gs_http_header w \<and> gs_bearer_config w' = gs_bearer_config w)"

fun step_out :: "step \<Rightarrow> string list" where
  "step_out (Step cmd room reply time_out err) = [cmd, CRLF]"

definition steps_out :: "step list \<Rightarrow> string list" where
  "steps_out steps = concat (map step_out steps)"

text \<open>The value of \<open>bearer_state\<close> in a run of \<open>SIM868_gprs_enable\<close>, if it gets that far.\<close>

definition queried_bearer_state :: "bool \<Rightarrow> world \<Rightarrow> uint8_t option" where
  "queried_bearer_state state w =
     (case gprs_enable_query state w of
        Inl r \<Rightarrow> None
      | Inr (module_state, bearer_state, w1) \<Rightarrow> Some bearer_state)"

section \<open>Example states\<close>

text \<open>A modem that never answers, and a state with it: buffers of 255 null bytes.\<close>

definition silent_modem :: "string list \<Rightarrow> string list \<Rightarrow> string list" where
  "silent_modem sent_so_far pending = []"

definition example_header :: Http_Header where
  "example_header =
     \<lparr>user_agent = ''sim868'', user_data = ''key: 1'', content_type = ''application/json'',
      root_url = ''http://example.com'', web_service = ''/api'',
      json_structure = ''{'' @ quoted ''a'' @ '':1234}''\<rparr>"

definition example_world ::
  "(string list \<Rightarrow> string list \<Rightarrow> string list) \<Rightarrow> world" where
  "example_world m =
     \<lparr>sent = [], rx = [], modem = m, atoi_null = 0,
      g_sim_buffer = replicate 255 NUL, g_http_buffer = replicate 255 NUL,
      g_http_status_code = 0, gs_http_header = example_header,
      gs_bearer_config = \<lparr>apn = ''m2m.amx'', user = ''jasper'', pwd = ''jasper''\<rparr>,
      undefined_steps = [], calls = []\<rparr>"

text \<open>
  A modem that answers each command, once its CR LF has arrived, with one line: the
  answer is a function of the command and of the number of strings sent so far.
\<close>

definition line_modem ::
  "(string \<Rightarrow> nat \<Rightarrow> string) \<Rightarrow> string list \<Rightarrow> string list \<Rightarrow> string list" where
  "line_modem answer sent_so_far pending =
     (if 2 \<le> length sent_so_far \<and> last sent_so_far = CRLF
      then [CRLF @ answer (last (butlast sent_so_far)) (length sent_so_far) @ CRLF]
      else pending)"

text \<open>A modem that reports an RSSI of 5 to \<open>AT+CSQ\<close>.\<close>

definition rssi_5_modem :: "string list \<Rightarrow> string list \<Rightarrow> string list" where
  "rssi_5_modem = line_modem (\<lambda>cmd n. if cmd = ''AT+CSQ'' then ''+CSQ: 5,0'' else ''OK'')"

text \<open>A modem that answers with a line whose second field is empty.\<close>

definition empty_field_modem :: "string list \<Rightarrow> string list \<Rightarrow> string list" where
  "empty_field_modem = line_modem (\<lambda>cmd n. ''+TOK: 10,,30'')"

text \<open>
  A modem that reports the registration status \<open>early\<close> to the first three polls of
  \<open>AT+CREG?\<close> (by then six strings were sent) and \<open>final\<close> from the fourth on.
\<close>

definition registration_modem ::
  "char \<Rightarrow> char \<Rightarrow> string list \<Rightarrow> string list \<Rightarrow> string list" where
  "registration_modem early final =
     line_modem (\<lambda>cmd n. ''+CREG: 0,'' @ [if n < 8 then early else final])"

text \<open>A modem that is attached and reports the bearer status \<open>status\<close>.\<close>

definition bearer_modem :: "char \<Rightarrow> string list \<Rightarrow> string list \<Rightarrow> string list" where
  "bearer_modem status =
     line_modem (\<lambda>cmd n.
       if cmd = ''AT+CGATT?'' then ''+CGATT: 1''
       else if cmd = ''AT+SAPBR=2,1''
         then ''+SAPBR: 1,'' @ [status] @ '','' @ quoted ''10.0.0.1''
       else ''OK'')"

text \<open>A modem that asks for the payload after \<open>AT+HTTPDATA\<close> and accepts the rest.\<close>

definition post_modem :: "string list \<Rightarrow> string list \<Rightarrow> string list" where
  "post_modem = line_modem (\<lambda>cmd n. if cmd = http_data_cmd then ''DOWNLOAD'' else ''OK'')"

text \<open>
  A state whose modem is \<open>line_modem answer\<close>, after \<open>n\<close> strings were sent, with a
  session buffer of 255 bytes.
\<close>

definition ready :: "(string \<Rightarrow> nat \<Rightarrow> string) \<Rightarrow> nat \<Rightarrow> world \<Rightarrow> bool" where
  "ready answer n w =
     (modem w = line_modem answer \<and> length (sent w) = n \<and> length (g_sim_buffer w) = 255)"

section \<open>Theorems\<close>

lemmas atoi_eval = atoi_def strtol_value_def INT_MAX_def INT_MIN_def Let_def

lemmas error_codes =
  NO_ERROR_def ERROR_NETWORK_RSSI_def ERROR_NETWORK_REGISTRATION_def ERROR_GPRS_SERVICE_def
  ERROR_GPRS_CONTEXT_def ERROR_REPLY_def ERROR_HTTP_SERVICE_def ERROR_HTTP_REQUEST_def
  ERROR_HTTP_STATUS_CODE_def ERROR_JSON_STRUCTURE_def

lemma upt_6: "[0..<6] = [0, 1, 2, 3, 4, 5]"
  by (simp add: upt_rec)

lemma word8_less_6_cases:
  fixes h :: uint8_t
  assumes "h < 6"
  shows "h = 0 \<or> h = 1 \<or> h = 2 \<or> h = 3 \<or> h = 4 \<or> h = 5"
proof -
  from assms have "unat h < 6" by (simp add: word_less_nat_alt)
  then show ?thesis unfolding word_unat_eq_iff by simp arith
qed

lemma fix_hours_below_6:
  assumes "hour t < 6"
  shows "fix_hours_loop [0..<6] t = t\<lparr>hour := hour t + 18\<rparr>"
  using word8_less_6_cases [OF assms]
  by (elim disjE) (simp_all add: upt_6 g_utc_hours_def g_fix_hours_def)

lemma word8_eq_of_nat_iff:
  fixes m :: uint8_t
  assumes "i < 256"
  shows "m = of_nat i \<longleftrightarrow> unat m = i"
  using assms by (auto simp: unat_of_nat)

lemma last_day_loop_gen:
  assumes "\<forall>i\<in>set js. i < 256"
  shows "last_day_loop js t =
    (if unat (month t) \<in> set js then t\<lparr>day := g_last_day_month ! unat (month t)\<rparr> else t)"
  using assms
proof (induction js arbitrary: t)
  case Nil
  then show ?case by simp
next
  case (Cons j js)
  then have j: "j < 256" and js: "\<forall>i\<in>set js. i < 256" by simp_all
  show ?case
    using Cons.IH [OF js] by (simp add: word8_eq_of_nat_iff [OF j])
qed

lemma last_day_loop_table:
  assumes "month t \<le> 12"
  shows "last_day_loop [0..<13] t = t\<lparr>day := g_last_day_month ! unat (month t)\<rparr>"
proof -
  from assms have "unat (month t) < 13" by (simp add: word_le_nat_alt)
  then show ?thesis by (simp add: last_day_loop_gen)
qed

lemma last_day_loop_none:
  assumes "12 < month t"
  shows "last_day_loop [0..<13] t = t"
proof -
  from assms have "\<not> unat (month t) < 13" by (simp add: word_less_nat_alt)
  then show ?thesis by (simp add: last_day_loop_gen)
qed

lemma gnss_adjust_utc6_cases:
  "gnss_adjust_utc6 t =
     (if 6 \<le> hour t then (t\<lparr>hour := hour t - 6\<rparr>, False)
      else (t\<lparr>hour := hour t + 18\<rparr>, True))"
proof (cases "6 \<le> hour t")
  case True
  then show ?thesis by (simp add: gnss_adjust_utc6_def)
next
  case False
  then have "hour t < 6" by simp
  from fix_hours_below_6 [OF this] False show ?thesis
    by (simp add: gnss_adjust_utc6_def)
qed

text \<open>
  Claim C9. In \<open>SIM868_gnss_get_data\<close>, for every parsed time and date, the time block
  as a whole (\<open>gnss_local_time\<close>) is fixed by the hour \<open>h\<close> that the first block
  leaves: with \<open>minutes == 59\<close> the parsed hour advanced (an hour not below 23 becoming
  0), the parsed hour otherwise. With \<open>h\<close> from 6 up the hour becomes \<open>h - 6\<close> and the
  previous-day flag is cleared; with \<open>h\<close> below 6 the hour is mapped through the hour
  tables to \<open>h + 18\<close> (hour 0 becomes hour 18) and the flag is set. So 23:59 gives hour
  18 of the previous day, and 05:59 gives hour 0 of the same day. The date block leaves the
  date when the flag is clear; with the flag set it subtracts one from a day other than 1;
  on \<open>day == 1\<close> the month is decremented (a month not above 1 becomes month 12 and
  the year is decremented, wrapping at 0) and the day becomes the entry of the new month in
  \<open>g_last_day_month\<close> (the day stays 1 when the new month is above 12, where the table
  ends), so that day 1 of March becomes February 28 whatever the year.
\<close>

theorem gnss_time_date_normalisation:
  "gnss_local_time t =
     (let h = (if minutes t = 59 then (if hour t < 23 then hour t + 1 else 0) else hour t)
      in if 6 \<le> h then (t\<lparr>hour := h - 6\<rparr>, False) else (t\<lparr>hour := h + 18\<rparr>, True))
   \<and> (minutes t = 59 \<and> hour t < 23 \<longrightarrow> gnss_local_time t = gnss_adjust_utc6 (t\<lparr>hour := hour t + 1\<rparr>))
   \<and> (minutes t = 59 \<and> \<not> hour t < 23 \<longrightarrow> gnss_local_time t = (t\<lparr>hour := 18\<rparr>, True))
   \<and> (minutes t \<noteq> 59 \<and> hour t < 6 \<longrightarrow> gnss_local_time t = (t\<lparr>hour := hour t + 18\<rparr>, True))
   \<and> (minutes t \<noteq> 59 \<and> hour t = 0 \<longrightarrow> gnss_local_time t = (t\<lparr>hour := 18\<rparr>, True))
   \<and> (minutes t \<noteq> 59 \<and> 6 \<le> hour t \<longrightarrow> gnss_local_time t = (t\<lparr>hour := hour t - 6\<rparr>, False))
   \<and> (hour t < 6 \<longrightarrow> gnss_adjust_utc6 t = (t\<lparr>hour := hour t + 18\<rparr>, True))
   \<and> (6 \<le> hour t \<longrightarrow> gnss_adjust_utc6 t = (t\<lparr>hour := hour t - 6\<rparr>, False))
   \<and> gnss_time_and_date t = gnss_adjust_date (snd (gnss_local_time t)) (fst (gnss_local_time t))
   \<and> gnss_adjust_date False t = t
   \<and> (day t \<noteq> 1 \<longrightarrow> gnss_adjust_date True t = t\<lparr>day := day t - 1\<rparr>)
   \<and> (day t = 1 \<and> 1 < month t \<and> month t \<le> 13 \<longrightarrow>
        gnss_adjust_date True t =
          t\<lparr>month := month t - 1, day := g_last_day_month ! unat (month t - 1)\<rparr>)
   \<and> (day t = 1 \<and> 13 < month t \<longrightarrow> gnss_adjust_date True t = t\<lparr>month := month t - 1\<rparr>)
   \<and> (day t = 1 \<and> month t \<le> 1 \<longrightarrow>
        gnss_adjust_date True t = t\<lparr>month := 12, year := year t - 1, day := 31\<rparr>)
   \<and> (day t = 1 \<and> month t = 3 \<longrightarrow>
        gnss_adjust_date True t = t\<lparr>month := 2, day := 28\<rparr>)"
proof (intro conjI impI)
  show "gnss_local_time t =
     (let h = (if minutes t = 59 then (if hour t < 23 then hour t + 1 else 0) else hour t)
      in if 6 \<le> h then (t\<lparr>hour := h - 6\<rparr>, False) else (t\<lparr>hour := h + 18\<rparr>, True))"
    by (simp add: gnss_local_time_def gnss_hour_rollover_def gnss_adjust_utc6_cases Let_def)
next
  assume "minutes t = 59 \<and> hour t < 23"
  then show "gnss_local_time t = gnss_adjust_utc6 (t\<lparr>hour := hour t + 1\<rparr>)"
    by (simp add: gnss_local_time_def gnss_hour_rollover_def)
next
  assume "minutes t = 59 \<and> \<not> hour t < 23"
  then show "gnss_local_time t = (t\<lparr>hour := 18\<rparr>, True)"
    by (simp add: gnss_local_time_def gnss_hour_rollover_def gnss_adjust_utc6_cases)
next
  assume a: "minutes t \<noteq> 59 \<and> hour t < 6"
  then have "\<not> 6 \<le> hour t" by (simp add: not_le)
  with a show "gnss_local_time t = (t\<lparr>hour := hour t + 18\<rparr>, True)"
    by (simp add: gnss_local_time_def gnss_hour_rollover_def gnss_adjust_utc6_cases)
next
  assume "minutes t \<noteq> 59 \<and> hour t = 0"
  then show "gnss_local_time t = (t\<lparr>hour := 18\<rparr>, True)"
    by (simp add: gnss_local_time_def gnss_hour_rollover_def gnss_adjust_utc6_cases)
next
  assume "minutes t \<noteq> 59 \<and> 6 \<le> hour t"
  then show "gnss_local_time t = (t\<lparr>hour := hour t - 6\<rparr>, False)"
    by (simp add: gnss_local_time_def gnss_hour_rollover_def gnss_adjust_utc6_cases)
next
  assume "hour t < 6"
  then have "\<not> 6 \<le> hour t" by (simp add: not_le)
  then show "gnss_adjust_utc6 t = (t\<lparr>hour := hour t + 18\<rparr>, True)"
    by (simp add: gnss_adjust_utc6_cases)
next
  assume "6 \<le> hour t"
  then show "gnss_adjust_utc6 t = (t\<lparr>hour := hour t - 6\<rparr>, False)"
    by (simp add: gnss_adjust_utc6_cases)
next
  show "gnss_time_and_date t = gnss_adjust_date (snd (gnss_local_time t)) (fst (gnss_local_time t))"
    by (simp add: gnss_time_and_date_def split_beta)
next
  show "gnss_adjust_date False t = t"
    by (simp add: gnss_adjust_date_def)
next
  assume "day t \<noteq> 1"
  then show "gnss_adjust_date True t = t\<lparr>day := day t - 1\<rparr>"
    by (simp add: gnss_adjust_date_def)
next
  assume a: "day t = 1 \<and> 1 < month t \<and> month t \<le> 13"
  then have "unat (month t - 1) = unat (month t) - 1" "unat (month t) \<le> 13"
    by (simp_all add: unat_sub word_le_nat_alt word_less_nat_alt)
  then have "month t - 1 \<le> 12"
    by (simp add: word_le_nat_alt)
  then have "last_day_loop [0..<13] (t\<lparr>month := month t - 1\<rparr>) =
      t\<lparr>month := month t - 1, day := g_last_day_month ! unat (month t - 1)\<rparr>"
    using last_day_loop_table [of "t\<lparr>month := month t - 1\<rparr>"] by simp
  with a show "gnss_adjust_date True t =
      t\<lparr>month := month t - 1, day := g_last_day_month ! unat (month t - 1)\<rparr>"
    by (simp add: gnss_adjust_date_def)
next
  assume a: "day t = 1 \<and> 13 < month t"
  then have "unat (month t - 1) = unat (month t) - 1" "13 < unat (month t)"
    by (simp_all add: unat_sub word_le_nat_alt word_less_nat_alt)
  then have "12 < month t - 1"
    by (simp add: word_less_nat_alt)
  then have "last_day_loop [0..<13] (t\<lparr>month := month t - 1\<rparr>) = t\<lparr>month := month t - 1\<rparr>"
    using last_day_loop_none [of "t\<lparr>month := month t - 1\<rparr>"] by simp
  moreover from a have "1 < month t"
    by (simp add: word_less_nat_alt)
  ultimately show "gnss_adjust_date True t = t\<lparr>month := month t - 1\<rparr>"
    using a by (simp add: gnss_adjust_date_def)
next
  assume a: "day t = 1 \<and> month t \<le> 1"
  have "last_day_loop [0..<13] (t\<lparr>month := 12, year := year t - 1\<rparr>) =
      t\<lparr>month := 12, year := year t - 1, day := 31\<rparr>"
    using last_day_loop_table [of "t\<lparr>month := 12, year := year t - 1\<rparr>"]
    by (simp add: g_last_day_month_def)
  moreover from a have "\<not> 1 < month t" by (simp add: not_less)
  ultimately show "gnss_adjust_date True t = t\<lparr>month := 12, year := year t - 1, day := 31\<rparr>"
    using a by (simp add: gnss_adjust_date_def)
next
  assume a: "day t = 1 \<and> month t = 3"
  have "last_day_loop [0..<13] (t\<lparr>month := 2\<rparr>) = t\<lparr>month := 2, day := 28\<rparr>"
    using last_day_loop_table [of "t\<lparr>month := 2\<rparr>"] by (simp add: g_last_day_month_def)
  with a show "gnss_adjust_date True t = t\<lparr>month := 2, day := 28\<rparr>"
    by (simp add: gnss_adjust_date_def)
qed

theorem gnss_time_date_normalisation_witness:
  "gnss_local_time \<lparr>seconds = 59, minutes = 59, hour = 23, day = 1, month = 3, year = 24\<rparr>
     = (\<lparr>seconds = 59, minutes = 59, hour = 18, day = 1, month = 3, year = 24\<rparr>, True)
   \<and> gnss_time_and_date \<lparr>seconds = 59, minutes = 59, hour = 23, day = 1, month = 3, year = 24\<rparr>
     = \<lparr>seconds = 59, minutes = 59, hour = 18, day = 28, month = 2, year = 24\<rparr>
   \<and> gnss_local_time \<lparr>seconds = 0, minutes = 30, hour = 0, day = 1, month = 1, year = 0\<rparr>
     = (\<lparr>seconds = 0, minutes = 30, hour = 18, day = 1, month = 1, year = 0\<rparr>, True)
   \<and> gnss_adjust_date True \<lparr>seconds = 0, minutes = 30, hour = 18, day = 1, month = 1, year = 0\<rparr>
     = \<lparr>seconds = 0, minutes = 30, hour = 18, day = 31, month = 12, year = 255\<rparr>
   \<and> gnss_local_time \<lparr>seconds = 0, minutes = 59, hour = 5, day = 2, month = 3, year = 24\<rparr>
     = (\<lparr>seconds = 0, minutes = 59, hour = 0, day = 2, month = 3, year = 24\<rparr>, False)
   \<and> gnss_local_time \<lparr>seconds = 0, minutes = 30, hour = 14, day = 2, month = 3, year = 24\<rparr>
     = (\<lparr>seconds = 0, minutes = 30, hour = 8, day = 2, month = 3, year = 24\<rparr>, False)
   \<and> gnss_adjust_date True \<lparr>seconds = 0, minutes = 30, hour = 19, day = 2, month = 3, year = 24\<rparr>
     = \<lparr>seconds = 0, minutes = 30, hour = 19, day = 1, month = 3, year = 24\<rparr>"
proof -
  have a: "gnss_local_time \<lparr>seconds = 59, minutes = 59, hour = 23, day = 1, month = 3, year = 24\<rparr>
      = (\<lparr>seconds = 59, minutes = 59, hour = 18, day = 1, month = 3, year = 24\<rparr>, True)"
    using gnss_time_date_normalisation
      [of "\<lparr>seconds = 59, minutes = 59, hour = 23, day = 1, month = 3, year = 24\<rparr>"]
    by simp
  have b: "gnss_adjust_date True \<lparr>seconds = 59, minutes = 59, hour = 18, day = 1, month = 3, year = 24\<rparr>
      = \<lparr>seconds = 59, minutes = 59, hour = 18, day = 28, month = 2, year = 24\<rparr>"
    using gnss_time_date_normalisation
      [of "\<lparr>seconds = 59, minutes = 59, hour = 18, day = 1, month = 3, year = 24\<rparr>"]
    by (simp add: g_last_day_month_def)
  have c: "gnss_time_and_date \<lparr>seconds = 59, minutes = 59, hour = 23, day = 1, month = 3, year = 24\<rparr>
     = \<lparr>seconds = 59, minutes = 59, hour = 18, day = 28, month = 2, year = 24\<rparr>"
    using gnss_time_date_normalisation
      [of "\<lparr>seconds = 59, minutes = 59, hour = 23, day = 1, month = 3, year = 24\<rparr>"] a b
    by simp
  have d: "gnss_local_time \<lparr>seconds = 0, minutes = 30, hour = 0, day = 1, month = 1, year = 0\<rparr>
     = (\<lparr>seconds = 0, minutes = 30, hour = 18, day = 1, month = 1, year = 0\<rparr>, True)"
    using gnss_time_date_normalisation
      [of "\<lparr>seconds = 0, minutes = 30, hour = 0, day = 1, month = 1, year = 0\<rparr>"]
    by simp
  have e: "gnss_adjust_date True \<lparr>seconds = 0, minutes = 30, hour = 18, day = 1, month = 1, year = 0\<rparr>
      = \<lparr>seconds = 0, minutes = 30, hour = 18, day = 31, month = 12, year = 255\<rparr>"
    using gnss_time_date_normalisation
      [of "\<lparr>seconds = 0, minutes = 30, hour = 18, day = 1, month = 1, year = 0\<rparr>"]
    by simp
  have f: "gnss_local_time \<lparr>seconds = 0, minutes = 59, hour = 5, day = 2, month = 3, year = 24\<rparr>
     = (\<lparr>seconds = 0, minutes = 59, hour = 0, day = 2, month = 3, year = 24\<rparr>, False)"
    using gnss_time_date_normalisation
      [of "\<lparr>seconds = 0, minutes = 59, hour = 5, day = 2, month = 3, year = 24\<rparr>"]
    by simp
  have g: "gnss_local_time \<lparr>seconds = 0, minutes = 30, hour = 14, day = 2, month = 3, year = 24\<rparr>
     = (\<lparr>seconds = 0, minutes = 30, hour = 8, day = 2, month = 3, year = 24\<rparr>, False)"
    using gnss_time_date_normalisation
      [of "\<lparr>seconds = 0, minutes = 30, hour = 14, day = 2, month = 3, year = 24\<rparr>"]
    by simp
  have h: "gnss_adjust_date True \<lparr>seconds = 0, minutes = 30, hour = 19, day = 2, month = 3, year = 24\<rparr>
     = \<lparr>seconds = 0, minutes = 30, hour = 19, day = 1, month = 3, year = 24\<rparr>"
    using gnss_time_date_normalisation
      [of "\<lparr>seconds = 0, minutes = 30, hour = 19, day = 2, month = 3, year = 24\<rparr>"]
    by simp
  from a c d e f g h show ?thesis by simp
qed

subsection \<open>Speed in double arithmetic\<close>

lemma round_even_error: "\<bar>of_int (round_even y) - y\<bar> \<le> 1 / 2"
  unfolding round_even_def Let_def by (simp; linarith)

lemma round_even_nonneg: "0 \<le> y \<Longrightarrow> 0 \<le> round_even y"
  unfolding round_even_def Let_def by (simp; linarith)

lemma scaled_powi:
  "(if 0 \<le> e then r * 2 ^ nat e else r / 2 ^ nat (- e)) = r * (2 :: real) powi e"
  by (simp add: power_int_def field_simps)

lemma scale_down_props:
  assumes "0 < m"
  shows "case scale_down m e of
           (m', e') \<Rightarrow> m' * 2 powi e' = m * 2 powi e \<and> 0 < m' \<and> m' < 2 ^ 53
                        \<and> (2 ^ 52 \<le> m' \<or> (m' = m \<and> e' = e))"
  using assms
proof (induction m e rule: scale_down.induct)
  case (1 m e)
  show ?case
  proof (cases "2 ^ 53 \<le> m")
    case True
    with "1.prems" have pos: "0 < m / 2" by simp
    obtain m' e' where r: "scale_down (m / 2) (e + 1) = (m', e')"
      by (cases "scale_down (m / 2) (e + 1)") auto
    from "1.IH" [OF True pos] r
    have eq: "m' * 2 powi e' = m / 2 * 2 powi (e + 1)" and p: "0 < m'" and u: "m' < 2 ^ 53"
      and l: "2 ^ 52 \<le> m' \<or> (m' = m / 2 \<and> e' = e + 1)"
      by simp_all
    have h: "(2 :: real) powi (e + 1) = 2 powi e * 2"
      by (simp add: power_int_add)
    have "m' * 2 powi e' = m / 2 * (2 powi e * 2)"
      by (simp only: eq h)
    also have "\<dots> = m * 2 powi e" by simp
    finally have eq': "m' * 2 powi e' = m * 2 powi e" .
    from l True have "2 ^ 52 \<le> m'" by auto
    with eq' p u r True show ?thesis
      by (subst scale_down.simps) simp
  next
    case False
    with "1.prems" show ?thesis
      by (subst scale_down.simps) simp
  qed
qed

lemma scale_up_props:
  assumes "0 < m" and "m < 2 ^ 53"
  shows "case scale_up m e of
           (m', e') \<Rightarrow> m' * 2 powi e' = m * 2 powi e \<and> 0 < m' \<and> m' < 2 ^ 53
                        \<and> (2 ^ 52 \<le> m' \<or> e' \<le> - 1074)"
  using assms
proof (induction m e rule: scale_up.induct)
  case (1 m e)
  show ?case
  proof (cases "m < 2 ^ 52 \<and> - 1074 < e")
    case True
    with "1.prems" have pos: "0 < m * 2" and up: "m * 2 < 2 ^ 53" by simp_all
    obtain m' e' where r: "scale_up (m * 2) (e - 1) = (m', e')"
      by (cases "scale_up (m * 2) (e - 1)") auto
    from "1.IH" [OF True pos up] r
    have eq: "m' * 2 powi e' = m * 2 * 2 powi (e - 1)" and p: "0 < m'" and u: "m' < 2 ^ 53"
      and l: "2 ^ 52 \<le> m' \<or> e' \<le> - 1074"
      by simp_all
    have "m * 2 * 2 powi (e - 1) = m * 2 powi e"
      by (simp add: power_int_diff)
    with eq have eq': "m' * 2 powi e' = m * 2 powi e" by simp
    with p u l r True show ?thesis
      by (subst scale_up.simps) simp
  next
    case False
    with "1.prems" show ?thesis
      by (subst scale_up.simps) auto
  qed
qed


lemma double_of_cases:
  assumes "x \<noteq> 0"
  shows "\<exists>m e. 0 < m \<and> m * 2 powi e = \<bar>x\<bar> \<and> (2 ^ 52 \<le> m \<or> e \<le> - 1074)
           \<and> double_of x =
               (if (2 :: real) ^ 1024 \<le> of_int (round_even m) * 2 powi e then None
                else Some (if x < 0 then - (of_int (round_even m) * 2 powi e)
                           else of_int (round_even m) * 2 powi e))"
proof -
  from assms have pos: "0 < \<bar>x\<bar>" by simp
  obtain m1 e1 where d: "scale_down \<bar>x\<bar> 0 = (m1, e1)"
    by (cases "scale_down \<bar>x\<bar> 0") auto
  from scale_down_props [OF pos, of 0] d
  have d1: "m1 * 2 powi e1 = \<bar>x\<bar>" and d2: "0 < m1" and d3: "m1 < 2 ^ 53"
    by simp_all
  obtain m e where u: "scale_up m1 e1 = (m, e)"
    by (cases "scale_up m1 e1") auto
  from scale_up_props [OF d2 d3, of e1] u
  have u1: "m * 2 powi e = m1 * 2 powi e1" and u2: "0 < m"
    and u4: "2 ^ 52 \<le> m \<or> e \<le> - 1074"
    by simp_all
  have "double_of x =
      (if (2 :: real) ^ 1024 \<le> of_int (round_even m) * 2 powi e then None
       else Some (if x < 0 then - (of_int (round_even m) * 2 powi e)
                  else of_int (round_even m) * 2 powi e))"
    using assms by (simp add: double_of_def d u Let_def scaled_powi)
  with u1 d1 u2 u4 show ?thesis by metis
qed

lemma double_of_magnitude:
  assumes m: "0 < m" and x: "m * 2 powi e = \<bar>x\<bar>" and n: "2 ^ 52 \<le> m \<or> e \<le> - 1074"
  shows "\<bar>of_int (round_even m) * 2 powi e - \<bar>x\<bar>\<bar> \<le> \<bar>x\<bar> / 2 ^ 53 + 1 / 2 ^ 1075"
    and "0 \<le> of_int (round_even m) * (2 :: real) powi e"
proof -
  have p: "0 < (2 :: real) powi e" by simp
  have "\<bar>of_int (round_even m) * 2 powi e - \<bar>x\<bar>\<bar> = \<bar>of_int (round_even m) - m\<bar> * 2 powi e"
    unfolding x [symmetric] by (simp add: left_diff_distrib [symmetric] abs_mult)
  also have "\<dots> \<le> 1 / 2 * 2 powi e"
    using round_even_error [of m] p by (intro mult_right_mono) simp_all
  finally have half: "\<bar>of_int (round_even m) * 2 powi e - \<bar>x\<bar>\<bar> \<le> 1 / 2 * 2 powi e" .
  from n have "(2 :: real) powi e \<le> \<bar>x\<bar> / 2 ^ 52 + 1 / 2 ^ 1074"
  proof
    assume big: "2 ^ 52 \<le> m"
    have "2 ^ 52 * (2 :: real) powi e \<le> m * 2 powi e"
      using big p by (intro mult_right_mono) simp_all
    with x have "2 ^ 52 * (2 :: real) powi e \<le> \<bar>x\<bar>" by simp
    then have "(2 :: real) powi e \<le> \<bar>x\<bar> / 2 ^ 52" by (simp add: field_simps)
    then show ?thesis by simp
  next
    assume "e \<le> - 1074"
    then have "(2 :: real) powi e \<le> 2 powi (- 1074)"
      by (intro power_int_increasing) simp_all
    also have "\<dots> = 1 / 2 ^ 1074"
      by (simp add: power_int_def field_simps)
    finally show ?thesis by (smt (verit) abs_ge_zero divide_nonneg_pos zero_less_power)
  qed
  with half show "\<bar>of_int (round_even m) * 2 powi e - \<bar>x\<bar>\<bar> \<le> \<bar>x\<bar> / 2 ^ 53 + 1 / 2 ^ 1075"
    by simp
  from m have "0 \<le> round_even m" by (intro round_even_nonneg) simp
  then show "0 \<le> of_int (round_even m) * (2 :: real) powi e" by simp
qed

lemma double_of_error:
  assumes "double_of x = Some v"
  shows "\<bar>v - x\<bar> \<le> \<bar>x\<bar> / 2 ^ 53 + 1 / 2 ^ 1075" and "0 \<le> x \<Longrightarrow> 0 \<le> v"
proof -
  have "\<bar>v - x\<bar> \<le> \<bar>x\<bar> / 2 ^ 53 + 1 / 2 ^ 1075 \<and> (0 \<le> x \<longrightarrow> 0 \<le> v)"
  proof (cases "x = 0")
    case True
    with assms show ?thesis by (simp add: double_of_def)
  next
    case False
    from double_of_cases [OF False] obtain m e where
      m: "0 < m" and x: "m * 2 powi e = \<bar>x\<bar>" and n: "2 ^ 52 \<le> m \<or> e \<le> - 1074"
      and d: "double_of x =
               (if (2 :: real) ^ 1024 \<le> of_int (round_even m) * 2 powi e then None
                else Some (if x < 0 then - (of_int (round_even m) * 2 powi e)
                           else of_int (round_even m) * 2 powi e))"
      by blast
    define r where "r = of_int (round_even m) * (2 :: real) powi e"
    from double_of_magnitude [OF m x n]
    have e: "\<bar>r - \<bar>x\<bar>\<bar> \<le> \<bar>x\<bar> / 2 ^ 53 + 1 / 2 ^ 1075" and nn: "0 \<le> r"
      by (simp_all add: r_def)
    from d assms have v: "v = (if x < 0 then - r else r)"
      by (simp add: r_def split: if_splits)
    show ?thesis
    proof (cases "x < 0")
      case True
      with v have "v - x = - (r - \<bar>x\<bar>)" by simp
      then have "\<bar>v - x\<bar> = \<bar>r - \<bar>x\<bar>\<bar>" by (simp only: abs_minus_cancel)
      with e True show ?thesis by simp
    next
      case False
      with v have "v - x = r - \<bar>x\<bar>" by simp
      with e nn v False show ?thesis by simp
    qed
  qed
  then show "\<bar>v - x\<bar> \<le> \<bar>x\<bar> / 2 ^ 53 + 1 / 2 ^ 1075" and "0 \<le> x \<Longrightarrow> 0 \<le> v"
    by simp_all
qed

lemma double_of_defined:
  assumes "\<bar>x\<bar> \<le> 2 ^ 1000"
  shows "\<exists>v. double_of x = Some v"
proof (cases "x = 0")
  case True
  then show ?thesis by (simp add: double_of_def)
next
  case False
  from double_of_cases [OF False] obtain m e where
    m: "0 < m" and x: "m * 2 powi e = \<bar>x\<bar>" and n: "2 ^ 52 \<le> m \<or> e \<le> - 1074"
    and d: "double_of x =
             (if (2 :: real) ^ 1024 \<le> of_int (round_even m) * 2 powi e then None
              else Some (if x < 0 then - (of_int (round_even m) * 2 powi e)
                         else of_int (round_even m) * 2 powi e))"
    by blast
  define r where "r = of_int (round_even m) * (2 :: real) powi e"
  from double_of_magnitude(1) [OF m x n]
  have "\<bar>r - \<bar>x\<bar>\<bar> \<le> \<bar>x\<bar> / 2 ^ 53 + 1 / 2 ^ 1075"
    by (simp add: r_def)
  then have "r \<le> \<bar>x\<bar> + \<bar>x\<bar> / 2 ^ 53 + 1 / 2 ^ 1075" by linarith
  also have "\<dots> \<le> 2 ^ 1000 + 2 ^ 1000 / 2 ^ 53 + 1 / 2 ^ 1075"
    using assms by (intro add_mono divide_right_mono) simp_all
  also have "\<dots> < (2 :: real) ^ 1024" by simp
  finally have "\<not> 2 ^ 1024 \<le> r" by simp
  with d show ?thesis by (simp add: r_def)
qed


lemmas double_eval =
  double_of_def scale_down.simps scale_up.simps round_even_def Let_def

lemma double_of_1_852: "double_of 1.852 = Some (8340666509890159 / 4503599627370496)"
  by (simp add: double_eval)

lemma double_of_10: "double_of 10 = Some 10"
  by (simp add: double_eval)

lemma knots_to_kph_10: "knots_to_kph 10 = Some (5212916568681349 / 281474976710656)"
  by (simp add: knots_to_kph_def double_of_10 double_of_1_852) (simp add: double_eval)

lemma gnss_speed_kph_10: "gnss_speed_kph 10 = Some 18"
  by (simp add: gnss_speed_kph_def knots_to_kph_10 double_to_uint8_def)

lemma abs_diff_scale_left:
  fixes k :: real
  shows "0 \<le> k \<Longrightarrow> \<bar>k * c - k * d\<bar> = k * \<bar>c - d\<bar>"
  by (simp only: right_diff_distrib [symmetric] abs_mult abs_of_nonneg)

lemma abs_diff_scale_right:
  fixes c :: real
  shows "0 \<le> c \<Longrightarrow> \<bar>a * c - k * c\<bar> = \<bar>a - k\<bar> * c"
  by (simp only: left_diff_distrib [symmetric] abs_mult abs_of_nonneg)

lemma abs_triangle3:
  fixes p :: real
  shows "\<bar>p - z\<bar> \<le> \<bar>p - x\<bar> + \<bar>x - y\<bar> + \<bar>y - z\<bar>"
  by linarith

lemma knots_to_kph_error:
  assumes k: "0 \<le> knots" and r: "knots * 1.852 < 256"
  shows "\<exists>p. knots_to_kph knots = Some p \<and> 0 \<le> p \<and> \<bar>p - knots * 1.852\<bar> \<le> 1 / 2 ^ 43"
proof -
  define c :: real where "c = 8340666509890159 / 4503599627370496"
  have c: "double_of 1.852 = Some c" unfolding c_def by (rule double_of_1_852)
  have cpos: "0 \<le> c" and cup: "c \<le> 1.853" and cerr: "\<bar>c - 1.852\<bar> \<le> 2 / 2 ^ 53"
    by (simp_all add: c_def)
  have eta: "(1 :: real) / 2 ^ 1075 \<le> 1 / 2 ^ 60" by simp
  from k r have kup: "knots \<le> 139" by simp
  with k have "\<bar>knots\<bar> \<le> 2 ^ 1000" by simp
  from double_of_defined [OF this] obtain a where a: "double_of knots = Some a" by blast
  from double_of_error [OF a] k eta
  have aerr: "\<bar>a - knots\<bar> \<le> knots / 2 ^ 53 + 1 / 2 ^ 60" and apos: "0 \<le> a"
    by simp_all
  from aerr kup have aup: "a \<le> 140" by simp
  from apos cpos have acpos: "0 \<le> a * c" by simp
  have "a * c \<le> 140 * 1.853"
    using aup cup apos cpos by (intro mult_mono) simp_all
  then have acup: "a * c \<le> 260" by simp
  with acpos have "\<bar>a * c\<bar> \<le> 2 ^ 1000" by simp
  from double_of_defined [OF this] obtain p where p: "double_of (a * c) = Some p" by blast
  from double_of_error [OF p] acpos eta
  have perr: "\<bar>p - a * c\<bar> \<le> a * c / 2 ^ 53 + 1 / 2 ^ 60" and ppos: "0 \<le> p"
    by simp_all
  from perr acup have e1: "\<bar>p - a * c\<bar> \<le> 260 / 2 ^ 53 + 1 / 2 ^ 60" by simp
  have "\<bar>a * c - knots * c\<bar> = \<bar>a - knots\<bar> * c"
    using cpos by (rule abs_diff_scale_right)
  also have "\<dots> \<le> (139 / 2 ^ 53 + 1 / 2 ^ 60) * 1.853"
    using aerr kup cup cpos by (intro mult_mono) simp_all
  finally have e2: "\<bar>a * c - knots * c\<bar> \<le> (139 / 2 ^ 53 + 1 / 2 ^ 60) * 1.853" .
  have "\<bar>knots * c - knots * 1.852\<bar> = knots * \<bar>c - 1.852\<bar>"
    using k by (rule abs_diff_scale_left)
  also have "\<dots> \<le> 139 * (2 / 2 ^ 53)"
    using kup cerr k by (intro mult_mono) simp_all
  finally have e3: "\<bar>knots * c - knots * 1.852\<bar> \<le> 139 * (2 / 2 ^ 53)" .
  have "\<bar>p - knots * 1.852\<bar>
      \<le> \<bar>p - a * c\<bar> + \<bar>a * c - knots * c\<bar> + \<bar>knots * c - knots * 1.852\<bar>"
    by (rule abs_triangle3)
  also have "\<dots> \<le> (260 / 2 ^ 53 + 1 / 2 ^ 60) + (139 / 2 ^ 53 + 1 / 2 ^ 60) * 1.853
      + 139 * (2 / 2 ^ 53)"
    by (intro add_mono e1 e2 e3)
  also have "\<dots> \<le> 1 / 2 ^ 43" by simp
  finally have "\<bar>p - knots * 1.852\<bar> \<le> 1 / 2 ^ 43" .
  moreover have "knots_to_kph knots = Some p"
    unfolding knots_to_kph_def a c by (simp add: p)
  ultimately show ?thesis using ppos by blast
qed


lemma double_to_uint8_floor:
  assumes "0 \<le> x" and "x < 256"
  shows "double_to_uint8 x = Some (word_of_int \<lfloor>x\<rfloor>)"
    and "uint (word_of_int \<lfloor>x\<rfloor> :: uint8_t) = \<lfloor>x\<rfloor>"
proof -
  from assms show "double_to_uint8 x = Some (word_of_int \<lfloor>x\<rfloor>)"
    by (simp add: double_to_uint8_def)
  from assms have "0 \<le> \<lfloor>x\<rfloor>" and "\<lfloor>x\<rfloor> < 256"
    by (simp_all add: floor_less_iff)
  then show "uint (word_of_int \<lfloor>x\<rfloor> :: uint8_t) = \<lfloor>x\<rfloor>"
    by (simp add: uint_word_of_int take_bit_int_eq_self)
qed

lemma knots_to_kph_117: "knots_to_kph 117.170626349892 = Some 217"
  by (simp add: knots_to_kph_def double_eval)

text \<open>
  Claim C5, as amended. The value stored through \<open>speed_kph\<close> (a \<open>uint8_t\<close>) is the
  integral part of the \<open>double\<close> product \<open>atof(speedp) * 1.852\<close>, for a product from 0
  up to 256: the fraction is discarded. For a speed from 0 whose exact product with 1.852
  is below 256 the \<open>double\<close> product exists and lies within \<open>2 ^ - 43\<close> of the exact
  product, so the stored value can differ from the integral part of the exact product
  where that product is this close to an integer: the field 117.170626349892 is stored as
  217. 10.0 knots are stored as 18.
\<close>

theorem gnss_speed_kph_truncated:
  "(knots_to_kph knots = Some p \<and> 0 \<le> p \<and> p < 256 \<longrightarrow>
      gnss_speed_kph knots = Some (word_of_int \<lfloor>p\<rfloor>)
      \<and> uint (word_of_int \<lfloor>p\<rfloor> :: uint8_t) = \<lfloor>p\<rfloor>)
   \<and> (0 \<le> knots \<and> knots * 1.852 < 256 \<longrightarrow>
        (\<exists>q. knots_to_kph knots = Some q \<and> 0 \<le> q \<and> \<bar>q - knots * 1.852\<bar> \<le> 1 / 2 ^ 43))
   \<and> gnss_speed_kph 10 = Some 18
   \<and> gnss_speed_kph 117.170626349892 = Some 217
   \<and> \<lfloor>117.170626349892 * 1.852 :: real\<rfloor> = 216"
proof (intro conjI impI)
  assume a: "knots_to_kph knots = Some p \<and> 0 \<le> p \<and> p < 256"
  then have nn: "0 \<le> p" and lt: "p < 256" by simp_all
  from a double_to_uint8_floor(1) [OF nn lt]
  show "gnss_speed_kph knots = Some (word_of_int \<lfloor>p\<rfloor>)"
    by (simp add: gnss_speed_kph_def)
  show "uint (word_of_int \<lfloor>p\<rfloor> :: uint8_t) = \<lfloor>p\<rfloor>"
    by (rule double_to_uint8_floor(2) [OF nn lt])
next
  assume "0 \<le> knots \<and> knots * 1.852 < 256"
  then have "0 \<le> knots" and "knots * 1.852 < 256" by simp_all
  then show "\<exists>q. knots_to_kph knots = Some q \<and> 0 \<le> q \<and> \<bar>q - knots * 1.852\<bar> \<le> 1 / 2 ^ 43"
    by (rule knots_to_kph_error)
next
  show "gnss_speed_kph 10 = Some 18"
    by (rule gnss_speed_kph_10)
next
  show "gnss_speed_kph 117.170626349892 = Some 217"
    unfolding gnss_speed_kph_def knots_to_kph_117 by (simp add: double_to_uint8_def)
next
  show "\<lfloor>117.170626349892 * 1.852 :: real\<rfloor> = 216"
    by simp
qed

theorem gnss_speed_kph_truncated_witness:
  "knots_to_kph 10 = Some (5212916568681349 / 281474976710656)
   \<and> (0 :: real) \<le> 5212916568681349 / 281474976710656
   \<and> (5212916568681349 / 281474976710656 :: real) < 256
   \<and> gnss_speed_kph 10 = Some 18
   \<and> uint (18 :: uint8_t) = \<lfloor>5212916568681349 / 281474976710656 :: real\<rfloor>
   \<and> (0 :: real) \<le> 10 \<and> (10 :: real) * 1.852 < 256
   \<and> \<bar>5212916568681349 / 281474976710656 - (10 :: real) * 1.852\<bar> \<le> 1 / 2 ^ 43"
proof -
  have f: "\<lfloor>5212916568681349 / 281474976710656 :: real\<rfloor> = 18" by simp
  have w: "(word_of_int 18 :: uint8_t) = 18" by simp
  from gnss_speed_kph_truncated [of 10 "5212916568681349 / 281474976710656"] knots_to_kph_10
  have "gnss_speed_kph 10 = Some 18"
    and "uint (18 :: uint8_t) = \<lfloor>5212916568681349 / 281474976710656 :: real\<rfloor>"
    and "\<bar>5212916568681349 / 281474976710656 - (10 :: real) * 1.852\<bar> \<le> 1 / 2 ^ 43"
    by (simp_all add: f)
  with knots_to_kph_10 show ?thesis by simp
qed

theorem gnss_speed_kph_10_knots_counterexample:
  "gnss_speed_kph 10 = Some 18
   \<and> \<not> \<bar>real (unat (18 :: uint8_t)) - 18.52\<bar> \<le> 0.01
   \<and> real (unat (18 :: uint8_t)) \<noteq> 10 * 1.852"
  by (simp add: gnss_speed_kph_def knots_to_kph_10 double_to_uint8_def)

subsection \<open>Reply parser\<close>

lemma is_prefix_length: "is_prefix xs ys \<Longrightarrow> length xs \<le> length ys"
  by (induction xs ys rule: is_prefix.induct) auto

lemma strstr_bound: "strstr s t = Some i \<Longrightarrow> i + length t \<le> length s"
proof (induction s arbitrary: i)
  case Nil
  then show ?case by (simp split: if_splits)
next
  case (Cons c cs)
  show ?case
  proof (cases "is_prefix t (c # cs)")
    case True
    with Cons.prems is_prefix_length [OF True] show ?thesis by simp
  next
    case False
    with Cons.prems obtain j where "strstr cs t = Some j" and "i = Suc j" by auto
    with Cons.IH show ?thesis by simp
  qed
qed

lemma takeWhile_drop_within:
  "p \<le> length (takeWhile P xs) \<Longrightarrow> takeWhile P (drop p xs) = drop p (takeWhile P xs)"
proof (induction xs arbitrary: p)
  case Nil
  then show ?case by simp
next
  case (Cons x xs)
  then show ?case by (cases p) (auto split: if_splits)
qed

lemma cstr_drop: "p \<le> length (cstr buf) \<Longrightarrow> cstr (drop p buf) = drop p (cstr buf)"
  unfolding cstr_def by (rule takeWhile_drop_within)

lemma strchr_cstr:
  assumes "d \<noteq> NUL"
  shows "strchr xs d =
    (if d \<in> set (cstr xs) then Some (length (takeWhile (\<lambda>c. c \<noteq> d) (cstr xs))) else None)"
  using assms by (induction xs) (auto simp: cstr_def)

lemma takeWhile_length_less: "d \<in> set ys \<Longrightarrow> length (takeWhile (\<lambda>c. c \<noteq> d) ys) < length ys"
  by (induction ys) auto

lemma cstr_after_divider:
  assumes "d \<noteq> NUL" and "strchr xs d = Some j"
  shows "cstr (drop (j + 1) xs) = tl (dropWhile (\<lambda>c. c \<noteq> d) (cstr xs))"
proof -
  from assms have mem: "d \<in> set (cstr xs)"
    and j: "j = length (takeWhile (\<lambda>c. c \<noteq> d) (cstr xs))"
    by (auto simp: strchr_cstr split: if_splits)
  from takeWhile_length_less [OF mem] j have "j + 1 \<le> length (cstr xs)" by simp
  then have "cstr (drop (j + 1) xs) = drop (j + 1) (cstr xs)" by (rule cstr_drop)
  also have "\<dots> = tl (drop j (cstr xs))" by (simp add: drop_Suc tl_drop)
  also have "drop j (cstr xs) = dropWhile (\<lambda>c. c \<noteq> d) (cstr xs)"
    unfolding j by (simp add: dropWhile_eq_drop)
  finally show ?thesis .
qed

lemma skip_dividers_spec:
  assumes "d \<noteq> NUL"
  shows "map_option (\<lambda>q. cstr (drop q buf)) (skip_dividers k d buf p)
           = spec_skip k d (cstr (drop p buf))"
proof (induction k arbitrary: p)
  case 0
  show ?case by simp
next
  case (Suc k)
  show ?case
  proof (cases "strchr (drop p buf) d")
    case None
    with assms show ?thesis by (simp add: strchr_cstr split: if_splits)
  next
    case (Some j)
    with assms have mem: "d \<in> set (cstr (drop p buf))"
      by (simp add: strchr_cstr split: if_splits)
    have "cstr (drop (p + j + 1) buf) = tl (dropWhile (\<lambda>c. c \<noteq> d) (cstr (drop p buf)))"
      using cstr_after_divider [OF assms Some] by (simp add: add.commute add.left_commute)
    with Some mem Suc.IH [of "p + j + 1"] show ?thesis by simp
  qed
qed

lemma takeWhile_takeWhile_weaker:
  "(\<And>x. P x \<Longrightarrow> Q x) \<Longrightarrow> takeWhile P (takeWhile Q xs) = takeWhile P xs"
  by (induction xs) auto

lemma dropWhile_takeWhile_commute:
  "\<not> P c \<Longrightarrow>
   dropWhile P (takeWhile (\<lambda>x. x \<noteq> c) xs) = takeWhile (\<lambda>x. x \<noteq> c) (dropWhile P xs)"
  by (induction xs) auto

lemma digits_value_takeWhile:
  assumes "\<not> isdigit_c c"
  shows "digits_value (takeWhile (\<lambda>x. x \<noteq> c) s) = digits_value s"
proof -
  have "takeWhile isdigit_c (takeWhile (\<lambda>x. x \<noteq> c) s) = takeWhile isdigit_c s"
    using assms by (intro takeWhile_takeWhile_weaker) auto
  then show ?thesis by (simp add: digits_value_def)
qed

lemma digits_value_not_digit: "\<not> isdigit_c c \<Longrightarrow> digits_value (c # cs) = 0"
  by (simp add: digits_value_def)

lemma strtol_value_takeWhile:
  assumes "\<not> atoi_byte c"
  shows "strtol_value (takeWhile (\<lambda>x. x \<noteq> c) s) = strtol_value s"
proof -
  from assms have sp: "\<not> isspace_c c" and nd: "\<not> isdigit_c c"
    and sg: "c \<noteq> CHR ''-''" "c \<noteq> CHR ''+''"
    by (auto simp: atoi_byte_def)
  have comm: "dropWhile isspace_c (takeWhile (\<lambda>x. x \<noteq> c) s)
      = takeWhile (\<lambda>x. x \<noteq> c) (dropWhile isspace_c s)"
    using sp by (rule dropWhile_takeWhile_commute [of isspace_c c s])
  show ?thesis
  proof (cases "dropWhile isspace_c s")
    case Nil
    show ?thesis unfolding strtol_value_def comm Nil by simp
  next
    case (Cons x xs)
    show ?thesis
    proof (cases "x = c")
      case True
      with sg nd show ?thesis
        unfolding strtol_value_def comm Cons by (simp add: digits_value_not_digit)
    next
      case False
      have "digits_value (x # takeWhile (\<lambda>x. x \<noteq> c) xs) = digits_value (x # xs)"
        using digits_value_takeWhile [OF nd, of "x # xs"] False by simp
      with False show ?thesis
        unfolding strtol_value_def comm Cons by (simp add: digits_value_takeWhile [OF nd])
    qed
  qed
qed

lemma atoi_takeWhile:
  assumes "\<not> atoi_byte c"
  shows "atoi (takeWhile (\<lambda>x. x \<noteq> c) s) = atoi s"
  by (simp add: atoi_def strtol_value_takeWhile [OF assms])

lemma comma_not_atoi_byte: "\<not> atoi_byte (CHR '','')"
  by (simp add: atoi_byte_def isspace_c_def isdigit_c_def)

lemma strtok_comma_plain:
  assumes "s \<noteq> []" and "hd s \<noteq> CHR '',''"
  shows "\<exists>e. strtok_comma s = Some (takeWhile (\<lambda>c. c \<noteq> CHR '','') s, e)"
  using assms by (cases s) (simp_all add: strtok_comma_def)

text \<open>
  Where the code does what the specification says. For every buffer, token, field index
  and every divider that is neither the null byte nor a byte that \<open>atoi\<close> reads (white
  space, sign, digit), \<open>parse_reply\<close> gives the result of the parser in the words of the
  specification, unless the text after the \<open>k\<close>-th divider has more than one byte and
  begins with a comma (an empty field followed by more text).
\<close>

lemma parse_reply_field:
  assumes nul: "divider \<noteq> NUL" and byte: "\<not> atoi_byte divider"
    and field: "\<forall>rest. spec_field_text buf token divider k = Some rest \<longrightarrow>
                  \<not> (1 < length rest \<and> hd rest = CHR '','')"
  shows "fst (parse_reply_buffer buf token divider k) = spec_parse_reply buf token divider k"
proof (cases "strstr (cstr buf) (cstr token)")
  case None
  then show ?thesis
    by (simp add: parse_reply_buffer_def spec_parse_reply_def spec_field_text_def)
next
  case (Some i)
  define p0 where "p0 = i + length (cstr token)"
  from strstr_bound [OF Some] have "p0 \<le> length (cstr buf)" by (simp add: p0_def)
  then have start: "cstr (drop p0 buf) = drop p0 (cstr buf)" by (rule cstr_drop)
  have rel: "map_option (\<lambda>q. cstr (drop q buf)) (skip_dividers k divider buf p0)
      = spec_skip k divider (drop p0 (cstr buf))"
    using skip_dividers_spec [OF nul, of buf k p0] by (simp add: start)
  show ?thesis
  proof (cases "skip_dividers k divider buf p0")
    case None
    with rel have "spec_skip k divider (drop p0 (cstr buf)) = None" by simp
    with Some None show ?thesis
      by (simp add: parse_reply_buffer_def spec_parse_reply_def spec_field_text_def p0_def)
  next
    case (Some p)
    define rest where "rest = cstr (drop p buf)"
    from rel Some have sk: "spec_skip k divider (drop p0 (cstr buf)) = Some rest"
      by (simp add: rest_def)
    with \<open>strstr (cstr buf) (cstr token) = Some i\<close>
    have ft: "spec_field_text buf token divider k = Some rest"
      by (simp add: spec_field_text_def p0_def)
    with field have shape: "\<not> (1 < length rest \<and> hd rest = CHR '','')" by blast
    have spec: "spec_parse_reply buf token divider k = Stored (word_of_int (atoi rest))"
      using ft by (simp add: spec_parse_reply_def atoi_takeWhile [OF byte])
    have code: "fst (parse_reply_buffer buf token divider k) = Stored (word_of_int (atoi rest))"
    proof (cases "1 < length rest")
      case True
      with shape have "rest \<noteq> []" and "hd rest \<noteq> CHR '',''" by auto
      from strtok_comma_plain [OF this] obtain e where
        "strtok_comma rest = Some (takeWhile (\<lambda>c. c \<noteq> CHR '','') rest, e)" ..
      with True Some \<open>strstr (cstr buf) (cstr token) = Some i\<close> show ?thesis
        by (simp add: parse_reply_buffer_def p0_def [symmetric] rest_def [symmetric]
              atoi_takeWhile [OF comma_not_atoi_byte])
    next
      case False
      with Some \<open>strstr (cstr buf) (cstr token) = Some i\<close> show ?thesis
        by (simp add: parse_reply_buffer_def p0_def [symmetric] rest_def [symmetric])
    qed
    from code spec show ?thesis by simp
  qed
qed


lemmas parser_eval =
  parse_reply_buffer_def spec_parse_reply_def spec_field_text_def cstr_def NUL_def
  strtok_comma_def atoi_eval isspace_c_def digits_value_def isdigit_c_def

lemma parse_reply_field_examples:
  "CHR '','' \<noteq> NUL \<and> \<not> atoi_byte (CHR '','')
   \<and> spec_field_text (''+TOK: 10,20,30'' @ [NUL]) ''+TOK: '' (CHR '','') 1 = Some ''20,30''
   \<and> fst (parse_reply_buffer (''+TOK: 10,20,30'' @ [NUL]) ''+TOK: '' (CHR '','') 1) = Stored 20
   \<and> fst (parse_reply_buffer (''+TOK: 10,20,30'' @ [NUL]) ''+TOK: '' (CHR '','') 3) = Reply_error
   \<and> fst (parse_reply_buffer (''+TOK: 10,20,30'' @ [NUL]) ''+CSQ: '' (CHR '','') 0) = Reply_error"
proof -
  have h1: "CHR '','' \<noteq> NUL" by (simp add: NUL_def)
  have h2: "\<not> atoi_byte (CHR '','')" by (rule comma_not_atoi_byte)
  have f1: "spec_field_text (''+TOK: 10,20,30'' @ [NUL]) ''+TOK: '' (CHR '','') 1 = Some ''20,30''"
    by (simp add: spec_field_text_def cstr_def NUL_def)
  have f3: "spec_field_text (''+TOK: 10,20,30'' @ [NUL]) ''+TOK: '' (CHR '','') 3 = None"
    by (simp add: spec_field_text_def cstr_def NUL_def numeral_3_eq_3)
  have f0: "spec_field_text (''+TOK: 10,20,30'' @ [NUL]) ''+CSQ: '' (CHR '','') 0 = None"
    by (simp add: spec_field_text_def cstr_def NUL_def)
  have a: "fst (parse_reply_buffer (''+TOK: 10,20,30'' @ [NUL]) ''+TOK: '' (CHR '','') 1) = Stored 20"
    using parse_reply_field [OF h1 h2, of "''+TOK: 10,20,30'' @ [NUL]" "''+TOK: ''" 1] f1
    by (simp add: spec_parse_reply_def atoi_eval isspace_c_def digits_value_def isdigit_c_def)
  have b: "fst (parse_reply_buffer (''+TOK: 10,20,30'' @ [NUL]) ''+TOK: '' (CHR '','') 3) = Reply_error"
    using parse_reply_field [OF h1 h2, of "''+TOK: 10,20,30'' @ [NUL]" "''+TOK: ''" 3] f3
    by (simp add: spec_parse_reply_def)
  have c: "fst (parse_reply_buffer (''+TOK: 10,20,30'' @ [NUL]) ''+CSQ: '' (CHR '','') 0) = Reply_error"
    using parse_reply_field [OF h1 h2, of "''+TOK: 10,20,30'' @ [NUL]" "''+CSQ: ''" 0] f0
    by (simp add: spec_parse_reply_def)
  from h1 h2 f1 a b c show ?thesis by simp
qed

lemma atoi_above_int_max:
  "fst (parse_reply_buffer (''+TOK: 10000000000000000001'' @ NUL # tail) ''+TOK: '' (CHR '','') 0)
     = Stored 65535"
  by (simp add: parser_eval)

subsection \<open>Line reader\<close>

lemma store_char_inside:
  "unat reply_idx < 255 \<Longrightarrow>
   store_char reply_idx c w = w\<lparr>g_sim_buffer := (g_sim_buffer w)[unat reply_idx := c]\<rparr>"
  by (simp add: store_char_def REPLY_BUFFER_LENGTH_def)

lemma unat_succ_u8:
  fixes i :: uint8_t
  shows "unat i < 255 \<Longrightarrow> unat (i + 1) = Suc (unat i)"
  by (simp add: unat_word_ariths)

lemma drain_chars_plain:
  assumes "c \<noteq> CR" and "c \<noteq> LF"
  shows "unat reply_idx + n \<le> 255 \<Longrightarrow>
    \<exists>w'. drain_chars lines (replicate n c) reply_idx w = (False, [], reply_idx + of_nat n, w')
        \<and> undefined_steps w' = undefined_steps w \<and> rx w' = rx w"
proof (induction n arbitrary: reply_idx w)
  case 0
  then show ?case by simp
next
  case (Suc n)
  then have inside: "unat reply_idx < 255" by simp
  with Suc.prems have "unat (reply_idx + 1) + n \<le> 255" by (simp add: unat_succ_u8)
  from Suc.IH [OF this, of "store_char reply_idx c w"] obtain w' where
    d: "drain_chars lines (replicate n c) (reply_idx + 1) (store_char reply_idx c w)
          = (False, [], reply_idx + 1 + of_nat n, w')"
    and u: "undefined_steps w' = undefined_steps (store_char reply_idx c w)"
    and r: "rx w' = rx (store_char reply_idx c w)"
    by blast
  from u r have "undefined_steps w' = undefined_steps w" "rx w' = rx w"
    by (simp_all add: store_char_inside [OF inside])
  with d assms show ?case by (simp add: add.assoc)
qed

text \<open>
  Claim C7 fails on the code: with 255 bytes \<open>A\<close> in the receive buffer and a timeout of
  one tick, \<open>read_line\<close> fills the 255 bytes of \<open>g_sim_buffer\<close> and writes the closing
  null at index 255, outside the array.
\<close>

theorem read_line_null_outside_buffer:
  "read_line_idx 1 SINGLE_LINE (w\<lparr>rx := [replicate 255 (CHR ''A'')]\<rparr>) = 255
   \<and> \<not> unat (255 :: uint8_t) < REPLY_BUFFER_LENGTH
   \<and> undefined_steps (read_line 1 SINGLE_LINE (w\<lparr>rx := [replicate 255 (CHR ''A'')]\<rparr>))
       = undefined_steps w @ [Write_outside 255]"
proof -
  let ?w = "w\<lparr>rx := [replicate 255 (CHR ''A'')]\<rparr>"
  have "unat (0 :: uint8_t) + 255 \<le> 255" by simp
  from drain_chars_plain [of "CHR ''A''", OF _ _ this, of SINGLE_LINE ?w] obtain w' where
    d: "drain_chars SINGLE_LINE (replicate 255 (CHR ''A'')) 0 ?w = (False, [], 255, w')"
    and u: "undefined_steps w' = undefined_steps w"
    by (auto simp: CR_def LF_def)
  have loop: "read_line_loop (unat (1 :: uint16_t)) SINGLE_LINE 0 ?w = (255, w'\<lparr>rx := [[]]\<rparr>)"
    using d by (simp add: sim_drain_def REPLY_BUFFER_LENGTH_def)
  show ?thesis
    using loop u
    by (simp add: read_line_idx_def read_line_def store_char_def REPLY_BUFFER_LENGTH_def)
qed

subsection \<open>What the transceiver sends\<close>

lemma sends_refl: "sends [] w w"
  by (simp add: sends_def)

lemma sends_trans: "sends a w w1 \<Longrightarrow> sends b w1 w2 \<Longrightarrow> sends (a @ b) w w2"
  by (simp add: sends_def)

lemma sends_quiet_then: "sends [] w w1 \<Longrightarrow> sends b w1 w2 \<Longrightarrow> sends b w w2"
  using sends_trans [of "[]" w w1 b w2] by simp

lemma sends_then_quiet: "sends a w w1 \<Longrightarrow> sends [] w1 w2 \<Longrightarrow> sends a w w2"
  using sends_trans [of a w w1 "[]" w2] by simp

lemma sends_store_char: "sends [] w (store_char reply_idx c w)"
  by (simp add: sends_def store_char_def)

lemma sends_drain_chars:
  "drain_chars lines cs reply_idx w = (ended, left, reply_idx', w') \<Longrightarrow> sends [] w w'"
proof (induction cs arbitrary: reply_idx w)
  case Nil
  then show ?case by (simp add: sends_refl)
next
  case (Cons c cs)
  show ?case
  proof (cases "c = CR \<or> (c = LF \<and> reply_idx = 0)")
    case True
    with Cons.prems have "drain_chars lines cs reply_idx w = (ended, left, reply_idx', w')"
      by (auto split: if_splits)
    then show ?thesis by (rule Cons.IH)
  next
    case skip: False
    show ?thesis
    proof (cases "c = LF \<and> lines = 0")
      case True
      with skip Cons.prems have "w' = w" by (auto split: if_splits)
      then show ?thesis by (simp add: sends_refl)
    next
      case False
      with skip Cons.prems have
        "drain_chars lines cs (reply_idx + 1) (store_char reply_idx c w)
           = (ended, left, reply_idx', w')"
        by (auto split: if_splits)
      from Cons.IH [OF this] show ?thesis
        by (rule sends_quiet_then [OF sends_store_char])
    qed
  qed
qed

lemma sends_sim_drain:
  assumes "sim_drain lines reply_idx w = (ended, reply_idx', w')"
  shows "sends [] w w'"
proof (cases "rx w")
  case Nil
  with assms show ?thesis by (simp add: sim_drain_def sends_refl)
next
  case (Cons chunk later)
  obtain e l i w1 where d: "drain_chars lines chunk reply_idx w = (e, l, i, w1)"
    by (cases "drain_chars lines chunk reply_idx w") auto
  from sends_drain_chars [OF d] have "sends [] w w1" .
  moreover from assms Cons d have "w' = w1\<lparr>rx := l # later\<rparr>"
    by (simp add: sim_drain_def)
  ultimately show ?thesis by (simp add: sends_def)
qed

lemma sends_debug_delay_tick: "sends [] w (debug_delay_tick w)"
  by (simp add: sends_def debug_delay_tick_def)

lemma sends_read_line_loop:
  "read_line_loop t lines reply_idx w = (reply_idx', w') \<Longrightarrow> sends [] w w'"
proof (induction t arbitrary: reply_idx w)
  case 0
  then show ?case by (simp add: sends_refl)
next
  case (Suc t)
  show ?case
  proof (cases "REPLY_BUFFER_LENGTH < unat reply_idx")
    case True
    with Suc.prems show ?thesis by (simp add: sends_refl)
  next
    case False
    obtain e i w1 where d: "sim_drain lines reply_idx w = (e, i, w1)"
      by (cases "sim_drain lines reply_idx w") auto
    note q = sends_sim_drain [OF d]
    show ?thesis
    proof (cases "e \<or> t = 0")
      case True
      with Suc.prems False d have "w' = w1" by auto
      with q show ?thesis by simp
    next
      case stay: False
      with Suc.prems False d have
        "read_line_loop t lines i (debug_delay_tick w1) = (reply_idx', w')"
        by auto
      from Suc.IH [OF this] have "sends [] (debug_delay_tick w1) w'" .
      with sends_debug_delay_tick [of w1] have "sends [] w1 w'"
        by (rule sends_quiet_then)
      with q show ?thesis by (rule sends_quiet_then)
    qed
  qed
qed

lemma sends_read_line: "sends [] w (read_line time_out lines w)"
proof -
  obtain i w1 where l: "read_line_loop (unat time_out) lines 0 w = (i, w1)"
    by (cases "read_line_loop (unat time_out) lines 0 w") auto
  from sends_read_line_loop [OF l] sends_store_char [of w1 i NUL]
  have "sends [] w (store_char i NUL w1)" by (rule sends_quiet_then)
  with l show ?thesis by (simp add: read_line_def)
qed

lemma sends_get_reply: "sends [cmd, CRLF] w (get_reply cmd time_out w)"
proof -
  have "sends [cmd, CRLF] w (sim_send_data CRLF (sim_send_data cmd (sim_clear_buffer w)))"
    by (simp add: sends_def sim_send_data_def sim_clear_buffer_def)
  then show ?thesis
    unfolding get_reply_def by (rule sends_then_quiet [OF _ sends_read_line])
qed

lemma sends_send_check_reply:
  "sends [cmd, CRLF] w (snd (send_check_reply cmd reply time_out w))"
  by (simp add: send_check_reply_def Let_def sends_get_reply)

lemma sends_parse_reply: "sends [] w (snd (parse_reply reply divider index w))"
  by (simp add: parse_reply_def sends_def split: prod.split parse_out.split)

lemma sends_send_parse_reply:
  "sends [cmd, CRLF] w (snd (send_parse_reply cmd reply divider index time_out w))"
proof -
  obtain r w1 where p: "parse_reply reply divider index (get_reply cmd time_out w) = (r, w1)"
    by (cases "parse_reply reply divider index (get_reply cmd time_out w)") auto
  have "sends [cmd, CRLF] w (snd (parse_reply reply divider index (get_reply cmd time_out w)))"
    by (rule sends_then_quiet [OF sends_get_reply sends_parse_reply])
  with p have "sends [cmd, CRLF] w w1" by simp
  with p show ?thesis
    by (cases r) (simp_all add: send_parse_reply_def)
qed

lemma sends_sprintf_into: "sends [] w (sprintf_into room s w)"
  by (simp add: sprintf_into_def sends_def split: option.split)

lemma sends_check_replies:
  "\<exists>k\<le>length steps. sends (steps_out (take k steps)) w (snd (check_replies steps w))
      \<and> (steps \<noteq> [] \<longrightarrow> 0 < k)"
proof (induction steps arbitrary: w)
  case Nil
  show ?case by (simp add: steps_out_def sends_refl)
next
  case (Cons st steps)
  obtain cmd room reply time_out err where st: "st = Step cmd room reply time_out err"
    by (cases st) auto
  let ?w0 = "sprintf_into room cmd w"
  obtain r w1 where c: "send_check_reply cmd reply time_out ?w0 = (r, w1)"
    by (cases "send_check_reply cmd reply time_out ?w0") auto
  have "sends [cmd, CRLF] ?w0 w1"
    using sends_send_check_reply [of cmd ?w0 reply time_out] c by simp
  with sends_sprintf_into [of w room cmd] have first: "sends [cmd, CRLF] w w1"
    by (rule sends_quiet_then)
  show ?case
  proof (cases "r = 0")
    case False
    with st c first show ?thesis
      by (intro exI [of _ 1]) (simp add: steps_out_def)
  next
    case True
    from Cons.IH [of w1] obtain k where k: "k \<le> length steps"
      and s: "sends (steps_out (take k steps)) w1 (snd (check_replies steps w1))"
      by blast
    from sends_trans [OF first s]
    have "sends (steps_out (take (Suc k) (st # steps))) w (snd (check_replies steps w1))"
      by (simp add: steps_out_def st)
    with True st c k show ?thesis
      by (intro exI [of _ "Suc k"]) simp
  qed
qed

subsection \<open>HTTP request with retries\<close>

text \<open>
  Claim C10. With \<open>max_attempts == 0\<close> neither loop body of
  \<open>SIM868_http_send_request\<close> runs: the state is returned as it was (no call of
  \<open>http_init\<close> or \<open>http_start\<close>, nothing sent, buffers and HTTP state unchanged), and
  the value returned is that of the uninitialised local \<open>error_status\<close>, set by neither
  loop.
\<close>

theorem http_send_request_zero_attempts:
  "SIM868_http_send_request method 0 error_status0 w = (error_status0, w)"
  by (simp add: SIM868_http_send_request_def)

lemma http_init_frame:
  "calls (snd (http_init w)) = calls w @ [Call_http_init] \<and> modem (snd (http_init w)) = modem w"
proof -
  let ?w = "w\<lparr>calls := calls w @ [Call_http_init]\<rparr>"
  obtain r w1 where c: "send_check_reply ''AT+HTTPTERM'' ''OK'' DEFAULT_TIMEOUT ?w = (r, w1)"
    by (cases "send_check_reply ''AT+HTTPTERM'' ''OK'' DEFAULT_TIMEOUT ?w") auto
  from sends_send_check_reply [of "''AT+HTTPTERM''" ?w "''OK''" DEFAULT_TIMEOUT] c
  have 1: "calls w1 = calls w @ [Call_http_init]" "modem w1 = modem w"
    by (simp_all add: sends_def)
  have "\<exists>steps. snd (http_init w) = snd (check_replies steps w1)"
    unfolding http_init_def Let_def c by (simp del: check_replies.simps) blast
  then obtain steps where "snd (http_init w) = snd (check_replies steps w1)" ..
  moreover have "calls (snd (check_replies steps w1)) = calls w1"
      "modem (snd (check_replies steps w1)) = modem w1"
    using sends_check_replies [of steps w1] by (auto simp: sends_def)
  ultimately show ?thesis using 1 by simp
qed

lemma calls_http_init: "calls (snd (http_init w)) = calls w @ [Call_http_init]"
  using http_init_frame [of w] by simp

lemma calls_http_init_funpow:
  "calls (((\<lambda>w. snd (http_init w)) ^^ n) w) = calls w @ replicate n Call_http_init"
  by (induction n) (simp_all add: calls_http_init replicate_append_same)

lemma funpow_Suc_shift: "(f ^^ Suc i) x = (f ^^ i) (f x)"
  by (simp only: funpow_Suc_right o_apply)

lemma http_init_loop_exhausted:
  assumes "\<forall>i<Suc n. fst (http_init (((\<lambda>w. snd (http_init w)) ^^ i) w)) \<noteq> NO_ERROR"
  shows "\<exists>e. http_init_loop (Suc n) error_status w
           = (Some ERROR_HTTP_SERVICE, e, ((\<lambda>w. snd (http_init w)) ^^ Suc n) w)"
  using assms
proof (induction n arbitrary: error_status w)
  case 0
  then have "fst (http_init w) \<noteq> NO_ERROR" by simp
  then show ?case by (cases "http_init w") simp
next
  case (Suc n)
  let ?f = "\<lambda>w. snd (http_init w)"
  obtain e w1 where h: "http_init w = (e, w1)" by (cases "http_init w") auto
  then have w1: "?f w = w1" by simp
  from Suc.prems have "fst (http_init ((?f ^^ 0) w)) \<noteq> NO_ERROR" by blast
  with h have e: "e \<noteq> NO_ERROR" by simp
  have "\<forall>i<Suc n. fst (http_init ((?f ^^ i) w1)) \<noteq> NO_ERROR"
  proof (intro allI impI)
    fix i assume "i < Suc n"
    then have "Suc i < Suc (Suc n)" by simp
    with Suc.prems have "fst (http_init ((?f ^^ Suc i) w)) \<noteq> NO_ERROR"
      by blast
    then show "fst (http_init ((?f ^^ i) w1)) \<noteq> NO_ERROR"
      unfolding funpow_Suc_shift [where f = ?f and i = i and x = w] w1 .
  qed
  from Suc.IH [OF this, of e] obtain e' where
    l: "http_init_loop (Suc n) e w1 = (Some ERROR_HTTP_SERVICE, e', (?f ^^ Suc n) w1)" ..
  have "(?f ^^ Suc (Suc n)) w = (?f ^^ Suc n) w1"
    unfolding funpow_Suc_shift [where f = ?f and i = "Suc n" and x = w] w1 ..
  with h e l show ?case
    by (simp only: http_init_loop.simps(2) [of "Suc n"] prod.case if_False nat.distinct) blast
qed

text \<open>
  Claim C4. For every \<open>max_attempts >= 1\<close>: if \<open>http_init\<close> fails on every attempt (in
  the state each attempt finds), \<open>SIM868_http_send_request\<close> returns
  \<open>ERROR_HTTP_SERVICE\<close>, its effect is that of \<open>max_attempts\<close> calls of \<open>http_init\<close> and
  nothing else, and the calls recorded are \<open>max_attempts\<close> calls of \<open>http_init\<close> and no
  call of \<open>http_start\<close>.
\<close>

theorem http_send_request_init_exhausted:
  assumes "max_attempts \<noteq> 0"
    and "\<forall>i<unat max_attempts.
           fst (http_init (((\<lambda>w. snd (http_init w)) ^^ i) w)) \<noteq> NO_ERROR"
  shows "SIM868_http_send_request method max_attempts error_status0 w
           = (ERROR_HTTP_SERVICE, ((\<lambda>w. snd (http_init w)) ^^ unat max_attempts) w)
         \<and> calls (snd (SIM868_http_send_request method max_attempts error_status0 w))
           = calls w @ replicate (unat max_attempts) Call_http_init"
proof -
  from assms(1) have "unat max_attempts \<noteq> 0" by (simp add: unat_eq_zero)
  then obtain n where n: "unat max_attempts = Suc n" by (cases "unat max_attempts") auto
  from assms(2) n http_init_loop_exhausted [of n w error_status0] obtain e where
    "http_init_loop (Suc n) error_status0 w
       = (Some ERROR_HTTP_SERVICE, e, ((\<lambda>w. snd (http_init w)) ^^ Suc n) w)"
    by auto
  with n have r: "SIM868_http_send_request method max_attempts error_status0 w
      = (ERROR_HTTP_SERVICE, ((\<lambda>w. snd (http_init w)) ^^ unat max_attempts) w)"
    by (simp add: SIM868_http_send_request_def)
  then show ?thesis by (simp add: calls_http_init_funpow)
qed


subsection \<open>A modem that never answers\<close>

lemma debug_delay_tick_empty: "rx w = [] \<Longrightarrow> debug_delay_tick w = w"
  by (simp add: debug_delay_tick_def)

lemma read_line_loop_empty:
  "rx w = [] \<Longrightarrow> read_line_loop t lines 0 w = (0, w)"
  by (induction t) (simp_all add: sim_drain_def debug_delay_tick_empty REPLY_BUFFER_LENGTH_def)

lemma cstr_null_first: "cstr (buf[0 := NUL]) = []"
  by (cases buf) (simp_all add: cstr_def)

lemma send_check_reply_silent:
  assumes "modem w = silent_modem" and "cstr reply \<noteq> []"
  shows "fst (send_check_reply cmd reply time_out w) = 1"
proof -
  let ?w = "sim_send_data CRLF (sim_send_data cmd (sim_clear_buffer w))"
  from assms(1) have "rx ?w = []"
    by (simp add: sim_send_data_def sim_clear_buffer_def silent_modem_def)
  then have "read_line_loop (unat time_out) SINGLE_LINE 0 ?w = (0, ?w)"
    by (rule read_line_loop_empty)
  then have "g_sim_buffer (get_reply cmd time_out w) = (g_sim_buffer ?w)[0 := NUL]"
    by (simp add: get_reply_def read_line_def store_char_def REPLY_BUFFER_LENGTH_def)
  then have "cstr (g_sim_buffer (get_reply cmd time_out w)) = []"
    by (simp add: cstr_null_first)
  with assms(2) show ?thesis
    by (simp add: send_check_reply_def Let_def)
qed

lemma http_init_silent:
  assumes "modem w = silent_modem"
  shows "fst (http_init w) = ERROR_HTTP_SERVICE"
proof -
  let ?w = "w\<lparr>calls := calls w @ [Call_http_init]\<rparr>"
  obtain r w1 where c: "send_check_reply ''AT+HTTPTERM'' ''OK'' DEFAULT_TIMEOUT ?w = (r, w1)"
    by (cases "send_check_reply ''AT+HTTPTERM'' ''OK'' DEFAULT_TIMEOUT ?w") auto
  from sends_send_check_reply [of "''AT+HTTPTERM''" ?w "''OK''" DEFAULT_TIMEOUT] c assms
  have "modem w1 = silent_modem" by (simp add: sends_def)
  then have "fst (send_check_reply ''AT+HTTPINIT'' ''OK'' DEFAULT_TIMEOUT w1) = 1"
    by (rule send_check_reply_silent) (simp add: cstr_def NUL_def)
  then show ?thesis
    unfolding http_init_def Let_def c
    by (cases "send_check_reply ''AT+HTTPINIT'' ''OK'' DEFAULT_TIMEOUT w1")
       (simp add: sprintf_into_def)
qed

lemma modem_http_init_funpow:
  "modem (((\<lambda>w. snd (http_init w)) ^^ i) w) = modem w"
  by (induction i) (simp_all add: http_init_frame)

theorem http_send_request_init_exhausted_witness:
  "(3 :: uint8_t) \<noteq> 0
   \<and> fst (http_init (example_world silent_modem)) = ERROR_HTTP_SERVICE
   \<and> fst (SIM868_http_send_request POST 3 0 (example_world silent_modem)) = ERROR_HTTP_SERVICE
   \<and> calls (snd (SIM868_http_send_request POST 3 0 (example_world silent_modem)))
       = [Call_http_init, Call_http_init, Call_http_init]"
proof -
  have m: "modem (example_world silent_modem) = silent_modem"
    by (simp add: example_world_def)
  have h1: "(3 :: uint8_t) \<noteq> 0" by simp
  have h2: "\<forall>i<unat (3 :: uint8_t).
      fst (http_init (((\<lambda>w. snd (http_init w)) ^^ i) (example_world silent_modem))) \<noteq> NO_ERROR"
  proof (intro allI impI)
    fix i
    have "modem (((\<lambda>w. snd (http_init w)) ^^ i) (example_world silent_modem)) = silent_modem"
      by (simp only: modem_http_init_funpow m)
    from http_init_silent [OF this]
    show "fst (http_init (((\<lambda>w. snd (http_init w)) ^^ i) (example_world silent_modem))) \<noteq> NO_ERROR"
      by (simp add: error_codes)
  qed
  have c: "calls (example_world silent_modem) = []" by (simp add: example_world_def)
  have u: "unat (3 :: uint8_t) = 3" by simp
  have rep: "replicate 3 Call_http_init = [Call_http_init, Call_http_init, Call_http_init]"
    by (simp add: numeral_3_eq_3)
  note t = http_send_request_init_exhausted [OF h1 h2, of POST 0]
  from t [THEN conjunct1]
  have a: "fst (SIM868_http_send_request POST 3 0 (example_world silent_modem)) = ERROR_HTTP_SERVICE"
    by simp
  from t [THEN conjunct2]
  have b: "calls (snd (SIM868_http_send_request POST 3 0 (example_world silent_modem)))
       = [Call_http_init, Call_http_init, Call_http_init]"
    unfolding u rep c by simp
  from a b http_init_silent [OF m] h1 show ?thesis by simp
qed

subsection \<open>A modem that answers with one line\<close>

lemma take_Suc_update: "i < length xs \<Longrightarrow> take (Suc i) (xs[i := c]) = take i xs @ [c]"
  by (simp add: take_Suc_conv_app_nth)

lemma drain_chars_plain_append:
  assumes "\<forall>c\<in>set s. c \<noteq> CR \<and> c \<noteq> LF"
    and "unat reply_idx + length s \<le> 255"
    and "length (g_sim_buffer w) = 255"
  shows "drain_chars lines (s @ rest) reply_idx w =
     drain_chars lines rest (reply_idx + of_nat (length s))
       (w\<lparr>g_sim_buffer := take (unat reply_idx) (g_sim_buffer w) @ s
                             @ drop (unat reply_idx + length s) (g_sim_buffer w)\<rparr>)"
  using assms
proof (induction s arbitrary: reply_idx w)
  case Nil
  then show ?case by simp
next
  case (Cons c s)
  let ?i = "unat reply_idx"
  let ?b = "g_sim_buffer w"
  let ?w1 = "w\<lparr>g_sim_buffer := ?b[?i := c]\<rparr>"
  from Cons.prems have plain: "c \<noteq> CR" "c \<noteq> LF" and rest: "\<forall>c\<in>set s. c \<noteq> CR \<and> c \<noteq> LF"
    by simp_all
  from Cons.prems have inside: "?i < 255" by simp
  then have next_idx: "unat (reply_idx + 1) = Suc ?i" by (rule unat_succ_u8)
  with Cons.prems have room: "unat (reply_idx + 1) + length s \<le> 255" by simp
  from Cons.prems have len: "length (g_sim_buffer ?w1) = 255" by simp
  from inside Cons.prems have il: "?i < length ?b" by simp
  have "drain_chars lines ((c # s) @ rest) reply_idx w
      = drain_chars lines (s @ rest) (reply_idx + 1) ?w1"
    using plain by (simp add: store_char_inside [OF inside])
  also have "\<dots> = drain_chars lines rest (reply_idx + 1 + of_nat (length s))
       (?w1\<lparr>g_sim_buffer := take (unat (reply_idx + 1)) (g_sim_buffer ?w1) @ s
                             @ drop (unat (reply_idx + 1) + length s) (g_sim_buffer ?w1)\<rparr>)"
    by (rule Cons.IH [OF rest room len])
  also have "take (unat (reply_idx + 1)) (g_sim_buffer ?w1) = take ?i ?b @ [c]"
    by (simp add: next_idx take_Suc_update [OF il])
  also have "drop (unat (reply_idx + 1) + length s) (g_sim_buffer ?w1)
      = drop (?i + length (c # s)) ?b"
    by (simp add: next_idx)
  finally show ?case by (simp add: add.assoc)
qed

lemma of_nat_u8_nonzero:
  assumes "0 < n" and "n < 256"
  shows "(of_nat n :: uint8_t) \<noteq> 0"
proof
  assume "(of_nat n :: uint8_t) = 0"
  then have "unat (of_nat n :: uint8_t) = 0" by simp
  moreover from assms have "unat (of_nat n :: uint8_t) = n"
    by (simp add: unat_of_nat take_bit_nat_eq_self)
  ultimately show False using assms by simp
qed

lemma drain_chars_line:
  assumes plain: "\<forall>c\<in>set line. c \<noteq> CR \<and> c \<noteq> LF"
    and ne: "line \<noteq> []" and short: "length line < 255"
    and len: "length (g_sim_buffer w) = 255"
  shows "drain_chars SINGLE_LINE (CRLF @ line @ CRLF) 0 w =
     (True, [], of_nat (length line),
      w\<lparr>g_sim_buffer := line @ drop (length line) (g_sim_buffer w)\<rparr>)"
proof -
  have "drain_chars SINGLE_LINE (CRLF @ line @ CRLF) 0 w
      = drain_chars SINGLE_LINE (line @ CRLF) 0 w"
    by (simp add: CRLF_def CR_def LF_def)
  also have "\<dots> = drain_chars SINGLE_LINE CRLF (0 + of_nat (length line))
      (w\<lparr>g_sim_buffer := take (unat (0 :: uint8_t)) (g_sim_buffer w) @ line
                             @ drop (unat (0 :: uint8_t) + length line) (g_sim_buffer w)\<rparr>)"
    using short by (intro drain_chars_plain_append [OF plain _ len]) simp
  also have "\<dots> = (True, [], of_nat (length line),
      w\<lparr>g_sim_buffer := line @ drop (length line) (g_sim_buffer w)\<rparr>)"
    using of_nat_u8_nonzero [of "length line"] ne short
    by (simp add: CRLF_def CR_def LF_def SINGLE_LINE_def)
  finally show ?thesis .
qed

lemma get_reply_line_modem:
  assumes m: "modem w = line_modem answer"
    and line: "answer cmd (length (sent w) + 2) = line"
    and plain: "\<forall>c\<in>set line. c \<noteq> CR \<and> c \<noteq> LF"
    and ne: "line \<noteq> []" and short: "length line < 255"
    and len: "length (g_sim_buffer w) = 255"
    and t: "time_out \<noteq> 0"
  shows "g_sim_buffer (get_reply cmd time_out w)
           = line @ NUL # drop (Suc (length line)) (g_sim_buffer w)"
proof -
  let ?w = "sim_send_data CRLF (sim_send_data cmd (sim_clear_buffer w))"
  have rx: "rx ?w = [CRLF @ line @ CRLF]"
    using m line
    by (simp add: sim_send_data_def sim_clear_buffer_def line_modem_def butlast_append)
  have b: "g_sim_buffer ?w = g_sim_buffer w"
    by (simp add: sim_send_data_def sim_clear_buffer_def)
  with len have len': "length (g_sim_buffer ?w) = 255" by simp
  from t have "unat time_out \<noteq> 0" by (simp add: unat_eq_zero)
  then obtain n where n: "unat time_out = Suc n" by (cases "unat time_out") auto
  have loop: "read_line_loop (unat time_out) SINGLE_LINE 0 ?w =
      (of_nat (length line),
       ?w\<lparr>g_sim_buffer := line @ drop (length line) (g_sim_buffer ?w), rx := [[]]\<rparr>)"
    unfolding n
    by (simp add: sim_drain_def rx drain_chars_line [OF plain ne short len']
          REPLY_BUFFER_LENGTH_def)
  have idx: "unat (of_nat (length line) :: uint8_t) = length line"
    using short by (simp add: unat_of_nat take_bit_nat_eq_self)
  have "(line @ drop (length line) (g_sim_buffer w))[length line := NUL]
      = line @ NUL # drop (Suc (length line)) (g_sim_buffer w)"
    using short len
    by (simp add: list_update_append upd_conv_take_nth_drop drop_Suc [symmetric] Cons_nth_drop_Suc)
  then show ?thesis
    using short
    by (simp add: get_reply_def read_line_def loop store_char_def idx b REPLY_BUFFER_LENGTH_def)
qed


lemma length_parse_reply_buffer:
  "length (snd (parse_reply_buffer buf reply divider k)) = length buf"
  by (simp add: parse_reply_buffer_def Let_def split: option.split prod.split)

lemma ready_get_reply:
  assumes "ready answer n w"
    and "answer cmd (n + 2) = line"
    and "\<forall>c\<in>set line. c \<noteq> CR \<and> c \<noteq> LF"
    and "line \<noteq> []" and "length line < 255"
    and "time_out \<noteq> 0"
  shows "g_sim_buffer (get_reply cmd time_out w)
           = line @ NUL # drop (Suc (length line)) (g_sim_buffer w)"
    and "ready answer (n + 2) (get_reply cmd time_out w)"
proof -
  from assms(1) have m: "modem w = line_modem answer" and n: "length (sent w) = n"
    and len: "length (g_sim_buffer w) = 255"
    by (simp_all add: ready_def)
  from assms(2) n have line: "answer cmd (length (sent w) + 2) = line" by simp
  show b: "g_sim_buffer (get_reply cmd time_out w)
           = line @ NUL # drop (Suc (length line)) (g_sim_buffer w)"
    by (rule get_reply_line_modem [OF m line assms(3) assms(4) assms(5) len assms(6)])
  from sends_get_reply [of cmd w time_out] m n
  have "modem (get_reply cmd time_out w) = line_modem answer"
    and "length (sent (get_reply cmd time_out w)) = n + 2"
    by (simp_all add: sends_def)
  moreover from b len assms(5) have "length (g_sim_buffer (get_reply cmd time_out w)) = 255"
    by simp
  ultimately show "ready answer (n + 2) (get_reply cmd time_out w)"
    by (simp add: ready_def)
qed

lemma ready_send_parse_reply:
  assumes "ready answer n w"
    and "answer cmd (n + 2) = line"
    and "\<forall>c\<in>set line. c \<noteq> CR \<and> c \<noteq> LF"
    and "line \<noteq> []" and "length line < 255"
    and "time_out \<noteq> 0"
    and parse: "\<And>tail. fst (parse_reply_buffer (line @ NUL # tail) reply divider (unat index))
                   = Stored v"
  shows "fst (send_parse_reply cmd reply divider index time_out w) = Inr v"
    and "ready answer (n + 2) (snd (send_parse_reply cmd reply divider index time_out w))"
proof -
  let ?w1 = "get_reply cmd time_out w"
  note g = ready_get_reply [OF assms(1-6)]
  obtain buf where p: "parse_reply_buffer (g_sim_buffer ?w1) reply divider (unat index)
      = (Stored v, buf)"
    using parse [of "drop (Suc (length line)) (g_sim_buffer w)"] g(1)
    by (cases "parse_reply_buffer (g_sim_buffer ?w1) reply divider (unat index)") simp
  from length_parse_reply_buffer [of "g_sim_buffer ?w1" reply divider "unat index"] p
  have "length buf = length (g_sim_buffer ?w1)" by simp
  with g(2) have r: "ready answer (n + 2) (?w1\<lparr>g_sim_buffer := buf\<rparr>)"
    by (simp add: ready_def)
  from p show "fst (send_parse_reply cmd reply divider index time_out w) = Inr v"
    by (simp add: send_parse_reply_def parse_reply_def)
  from p r show "ready answer (n + 2) (snd (send_parse_reply cmd reply divider index time_out w))"
    by (simp add: send_parse_reply_def parse_reply_def)
qed

lemma ready_example_world: "ready answer 0 (example_world (line_modem answer))"
  by (simp add: ready_def example_world_def)

subsection \<open>RSSI check\<close>

lemma gprs_network_rssi_never_rssi_error:
  "fst (gprs_network_rssi w) \<noteq> ERROR_NETWORK_RSSI"
proof -
  have "\<not> (x < 9 \<and> 32 < x)" for x :: uint16_t
    by (auto simp: word_less_nat_alt)
  then show ?thesis
    by (cases "send_parse_reply ''AT+CSQ'' ''+CSQ: '' (CHR '','') 0 DEFAULT_TIMEOUT w")
       (auto simp: gprs_network_rssi_def error_codes split: sum.split)
qed

lemma rssi_5_reply:
  "fst (send_parse_reply ''AT+CSQ'' ''+CSQ: '' (CHR '','') 0 DEFAULT_TIMEOUT
          (example_world rssi_5_modem)) = Inr 5"
proof -
  let ?answer = "\<lambda>cmd n :: nat. if cmd = ''AT+CSQ'' then ''+CSQ: 5,0'' else ''OK''"
  have r: "ready ?answer 0 (example_world rssi_5_modem)"
    unfolding rssi_5_modem_def by (rule ready_example_world)
  show ?thesis
    by (rule ready_send_parse_reply(1) [OF r, where line = "''+CSQ: 5,0''"])
       (simp_all add: CR_def LF_def DEFAULT_TIMEOUT_def parser_eval)
qed

text \<open>
  Claim C1 fails on the code: an RSSI of 5, parsed from the reply \<open>+CSQ: 5,0\<close>, lies
  outside the window from 9 up to 32, and \<open>gprs_network_rssi\<close> returns \<open>NO_ERROR\<close>.
\<close>

theorem gprs_network_rssi_accepts_5:
  "fst (send_parse_reply ''AT+CSQ'' ''+CSQ: '' (CHR '','') 0 DEFAULT_TIMEOUT
          (example_world rssi_5_modem)) = Inr 5
   \<and> \<not> (9 \<le> (5 :: uint16_t) \<and> (5 :: uint16_t) < 32)
   \<and> fst (gprs_network_rssi (example_world rssi_5_modem)) = NO_ERROR"
proof -
  obtain w' where "send_parse_reply ''AT+CSQ'' ''+CSQ: '' (CHR '','') 0 DEFAULT_TIMEOUT
          (example_world rssi_5_modem) = (Inr 5, w')"
    using rssi_5_reply
    by (cases "send_parse_reply ''AT+CSQ'' ''+CSQ: '' (CHR '','') 0 DEFAULT_TIMEOUT
          (example_world rssi_5_modem)") simp
  then show ?thesis by (simp add: gprs_network_rssi_def)
qed

subsection \<open>Reply parser on an empty field\<close>

lemma empty_field_reply:
  "fst (send_parse_reply ''AT+TOK?'' ''+TOK: '' (CHR '','') 1 DEFAULT_TIMEOUT
          (example_world empty_field_modem)) = Inr 30"
proof -
  let ?answer = "\<lambda>(cmd :: string) n :: nat. ''+TOK: 10,,30''"
  have r: "ready ?answer 0 (example_world empty_field_modem)"
    unfolding empty_field_modem_def by (rule ready_example_world)
  show ?thesis
    by (rule ready_send_parse_reply(1) [OF r, where line = "''+TOK: 10,,30''"])
       (simp_all add: CR_def LF_def DEFAULT_TIMEOUT_def parser_eval)
qed

text \<open>
  Claim C6 fails on the code: with the buffer \<open>+TOK: 10,,30\<close>, the token \<open>+TOK: \<close>, the
  divider \<open>,\<close> and the field index 1, one divider follows the token's end before the
  field, the field after it is empty (it extends up to the next divider), and the integer
  value of an empty field is 0; \<open>parse_reply\<close> stores 30, the value of the field after
  it, because \<open>strtok(p, ",")\<close> skips the commas at the head of the text. The same happens
  to the reply read from the modem. Where the empty field is the last one
  (\<open>+TOK: 10,,\<close>) the same call stores 0, and on \<open>+TOK: 10,,,\<close> it passes the null
  pointer that \<open>strtok\<close> returns to \<open>atoi\<close>.
\<close>

theorem parse_reply_skips_empty_field:
  "fst (parse_reply ''+TOK: '' (CHR '','') 1 (w\<lparr>g_sim_buffer := ''+TOK: 10,,30'' @ NUL # tail\<rparr>))
     = Inr 30
   \<and> fst (parse_reply_buffer (''+TOK: 10,,30'' @ NUL # tail) ''+TOK: '' (CHR '','') 1) = Stored 30
   \<and> spec_field_text (''+TOK: 10,,30'' @ NUL # tail) ''+TOK: '' (CHR '','') 1 = Some '',30''
   \<and> spec_parse_reply (''+TOK: 10,,30'' @ NUL # tail) ''+TOK: '' (CHR '','') 1 = Stored 0
   \<and> fst (send_parse_reply ''AT+TOK?'' ''+TOK: '' (CHR '','') 1 DEFAULT_TIMEOUT
          (example_world empty_field_modem)) = Inr 30
   \<and> fst (parse_reply_buffer (''+TOK: 10,20,30'' @ NUL # tail) ''+TOK: '' (CHR '','') 1) = Stored 20
   \<and> fst (parse_reply_buffer (''+TOK: 10,,'' @ NUL # tail) ''+TOK: '' (CHR '','') 1) = Stored 0
   \<and> fst (parse_reply_buffer (''+TOK: 10,,,'' @ NUL # tail) ''+TOK: '' (CHR '','') 1) = Atoi_of_null"
proof (intro conjI)
  show "fst (parse_reply ''+TOK: '' (CHR '','') 1 (w\<lparr>g_sim_buffer := ''+TOK: 10,,30'' @ NUL # tail\<rparr>))
     = Inr 30"
    by (simp add: parse_reply_def parser_eval)
  show "fst (parse_reply_buffer (''+TOK: 10,,30'' @ NUL # tail) ''+TOK: '' (CHR '','') 1) = Stored 30"
    by (simp add: parser_eval)
  show "spec_field_text (''+TOK: 10,,30'' @ NUL # tail) ''+TOK: '' (CHR '','') 1 = Some '',30''"
    by (simp add: parser_eval)
  show "spec_parse_reply (''+TOK: 10,,30'' @ NUL # tail) ''+TOK: '' (CHR '','') 1 = Stored 0"
    by (simp add: parser_eval)
  show "fst (send_parse_reply ''AT+TOK?'' ''+TOK: '' (CHR '','') 1 DEFAULT_TIMEOUT
          (example_world empty_field_modem)) = Inr 30"
    by (rule empty_field_reply)
  show "fst (parse_reply_buffer (''+TOK: 10,20,30'' @ NUL # tail) ''+TOK: '' (CHR '','') 1) = Stored 20"
    by (simp add: parser_eval)
  show "fst (parse_reply_buffer (''+TOK: 10,,'' @ NUL # tail) ''+TOK: '' (CHR '','') 1) = Stored 0"
    by (simp add: parser_eval)
  show "fst (parse_reply_buffer (''+TOK: 10,,,'' @ NUL # tail) ''+TOK: '' (CHR '','') 1) = Atoi_of_null"
    by (simp add: parser_eval)
qed

subsection \<open>Registration polling\<close>

lemma registration_seconds_loop_30:
  "registration_seconds_loop 30 s = registration_poll (registration_poll s)"
  by (simp add: registration_seconds_loop.simps)

lemma registration_minutes_loop_0:
  "registration_minutes_loop 0 s = registration_poll ((registration_poll ^^ 3) s)"
  by (simp add: registration_minutes_loop.simps registration_seconds_loop_30 numeral_3_eq_3)

lemma registration_poll_switch:
  "fst (snd (registration_poll s)) = registration_switch (fst (registration_poll s)) (fst (snd s))"
  by (cases s) (simp add: registration_poll_def Let_def split: prod.split)

lemma registration_poll_status:
  assumes "fst (send_parse_reply ''AT+CREG?'' ''+CREG: '' (CHR '','') 1 DEFAULT_TIMEOUT
                  (snd (snd s))) = Inr v"
  shows "fst (registration_poll s) = v"
  using assms by (cases s) (auto simp: registration_poll_def Let_def split: prod.split)

lemma registration_poll_world:
  "snd (snd (registration_poll s))
     = snd (send_parse_reply ''AT+CREG?'' ''+CREG: '' (CHR '','') 1 DEFAULT_TIMEOUT (snd (snd s)))"
  by (cases s) (simp add: registration_poll_def Let_def split: prod.split)

lemma gsm_network_registration_polls:
  "gsm_network_registration status0 error_status0 w
     = snd ((registration_poll ^^ 4) (status0, error_status0, w))"
proof -
  have "(registration_poll ^^ 4) (status0, error_status0, w)
      = registration_poll ((registration_poll ^^ 3) (status0, error_status0, w))"
    by (simp add: numeral_eq_Suc)
  then show ?thesis
    by (simp add: gsm_network_registration_def registration_minutes_loop_0 split: prod.split)
qed

lemma registration_switch_cases:
  "registration_switch 0 e = ERROR_NETWORK_REGISTRATION"
  "registration_switch 1 e = NO_ERROR"
  "registration_switch 5 e = NO_ERROR"
  "registration_switch 2 e = e"
  "registration_switch 3 e = e"
  by (simp_all add: registration_switch_def NOT_REGISTERED_def REGISTERED_HOME_NET_def
      REGISTRED_NO_HOME_NET_def SEARCHING_def REGISTRATION_DENIED_def)

text \<open>
  Claim C3, as amended. \<open>gsm_network_registration\<close> makes four polls (two rounds of two)
  and returns the value that the \<open>switch\<close> of the fourth round leaves in \<open>error_status\<close>.
  When the fourth poll produces \<open>REGISTERED_HOME_NET\<close> or \<open>REGISTRED_NO_HOME_NET\<close> the
  function returns \<open>NO_ERROR\<close>, when it produces \<open>NOT_REGISTERED\<close> the function returns
  \<open>ERROR_NETWORK_REGISTRATION\<close>, when it produces a value that is none of the five
  statuses the function returns \<open>ERROR_REPLY\<close>, whatever the first three polls produced.
  When the fourth poll produces \<open>SEARCHING\<close> or \<open>REGISTRATION_DENIED\<close> the function
  returns the error status that the first three rounds left, so the result follows the
  last round whose status was neither of the two.

  The theorem also gives the result as the four \<open>switch\<close>es in a row, on the status of
  each round, and what follows for a run whose status is \<open>SEARCHING\<close> or
  \<open>REGISTRATION_DENIED\<close> in all four rounds: the value returned is the one the local
  \<open>error_status\<close> had on entry, and the source never initialises it.
\<close>

theorem registration_result_from_polls:
  assumes "fst (send_parse_reply ''AT+CREG?'' ''+CREG: '' (CHR '','') 1 DEFAULT_TIMEOUT
                  (snd (snd ((registration_poll ^^ 3) (status0, error_status0, w))))) = Inr v"
  shows "fst (gsm_network_registration status0 error_status0 w) =
          (if v = NOT_REGISTERED then ERROR_NETWORK_REGISTRATION
           else if v = REGISTERED_HOME_NET \<or> v = REGISTRED_NO_HOME_NET then NO_ERROR
           else if v = SEARCHING \<or> v = REGISTRATION_DENIED
             then fst (snd ((registration_poll ^^ 3) (status0, error_status0, w)))
           else ERROR_REPLY)
       \<and> (v = REGISTERED_HOME_NET \<or> v = REGISTRED_NO_HOME_NET \<longrightarrow>
            fst (gsm_network_registration status0 error_status0 w) = NO_ERROR)
       \<and> (v = NOT_REGISTERED \<longrightarrow>
            fst (gsm_network_registration status0 error_status0 w) = ERROR_NETWORK_REGISTRATION)
       \<and> fst (gsm_network_registration status0 error_status0 w) =
           registration_switch (fst ((registration_poll ^^ 4) (status0, error_status0, w)))
            (registration_switch (fst ((registration_poll ^^ 3) (status0, error_status0, w)))
              (registration_switch (fst ((registration_poll ^^ 2) (status0, error_status0, w)))
                (registration_switch (fst ((registration_poll ^^ 1) (status0, error_status0, w)))
                  error_status0)))
       \<and> ((\<forall>i\<in>{1, 2, 3, 4}.
              fst ((registration_poll ^^ i) (status0, error_status0, w)) = SEARCHING
              \<or> fst ((registration_poll ^^ i) (status0, error_status0, w)) = REGISTRATION_DENIED)
            \<longrightarrow> fst (gsm_network_registration status0 error_status0 w) = error_status0)
       \<and> fst ((registration_poll ^^ 4) (status0, error_status0, w)) = v
       \<and> snd (gsm_network_registration status0 error_status0 w)
           = snd (send_parse_reply ''AT+CREG?'' ''+CREG: '' (CHR '','') 1 DEFAULT_TIMEOUT
                   (snd (snd ((registration_poll ^^ 3) (status0, error_status0, w)))))"
proof -
  let ?s0 = "(status0, error_status0, w)"
  let ?s3 = "(registration_poll ^^ 3) ?s0"
  have p4: "(registration_poll ^^ 4) ?s0 = registration_poll ?s3"
    and p3: "?s3 = registration_poll ((registration_poll ^^ 2) ?s0)"
    and p2: "(registration_poll ^^ 2) ?s0 = registration_poll ((registration_poll ^^ 1) ?s0)"
    and p1: "(registration_poll ^^ 1) ?s0 = registration_poll ?s0"
    by (simp_all add: numeral_eq_Suc)
  have g: "fst (gsm_network_registration status0 error_status0 w)
      = fst (snd ((registration_poll ^^ 4) ?s0))"
    and gw: "snd (gsm_network_registration status0 error_status0 w)
      = snd (snd ((registration_poll ^^ 4) ?s0))"
    by (simp_all add: gsm_network_registration_polls)
  have v: "fst ((registration_poll ^^ 4) ?s0) = v"
    unfolding p4 by (rule registration_poll_status [OF assms])
  have e4: "fst (snd ((registration_poll ^^ 4) ?s0)) = registration_switch v (fst (snd ?s3))"
    using registration_poll_switch [of ?s3] v by (simp only: p4)
  have e3: "fst (snd ?s3) = registration_switch (fst ?s3) (fst (snd ((registration_poll ^^ 2) ?s0)))"
    using registration_poll_switch [of "(registration_poll ^^ 2) ?s0"] by (simp only: p3 [symmetric])
  have e2: "fst (snd ((registration_poll ^^ 2) ?s0))
      = registration_switch (fst ((registration_poll ^^ 2) ?s0))
          (fst (snd ((registration_poll ^^ 1) ?s0)))"
    using registration_poll_switch [of "(registration_poll ^^ 1) ?s0"] by (simp only: p2 [symmetric])
  have e1: "fst (snd ((registration_poll ^^ 1) ?s0))
      = registration_switch (fst ((registration_poll ^^ 1) ?s0)) error_status0"
    using registration_poll_switch [of ?s0] by (simp only: p1 [symmetric] fst_conv snd_conv)
  have all: "fst (gsm_network_registration status0 error_status0 w) =
           registration_switch (fst ((registration_poll ^^ 4) ?s0))
            (registration_switch (fst ?s3)
              (registration_switch (fst ((registration_poll ^^ 2) ?s0))
                (registration_switch (fst ((registration_poll ^^ 1) ?s0)) error_status0)))"
    by (simp only: g e4 v e3 e2 e1)
  have c1: "fst (gsm_network_registration status0 error_status0 w) =
          (if v = NOT_REGISTERED then ERROR_NETWORK_REGISTRATION
           else if v = REGISTERED_HOME_NET \<or> v = REGISTRED_NO_HOME_NET then NO_ERROR
           else if v = SEARCHING \<or> v = REGISTRATION_DENIED then fst (snd ?s3)
           else ERROR_REPLY)"
    by (simp add: g e4 registration_switch_def)
  have c5: "(\<forall>i\<in>{1, 2, 3, 4}.
              fst ((registration_poll ^^ i) ?s0) = SEARCHING
              \<or> fst ((registration_poll ^^ i) ?s0) = REGISTRATION_DENIED)
            \<longrightarrow> fst (gsm_network_registration status0 error_status0 w) = error_status0"
  proof
    assume a: "\<forall>i\<in>{1, 2, 3, 4}.
              fst ((registration_poll ^^ i) ?s0) = SEARCHING
              \<or> fst ((registration_poll ^^ i) ?s0) = REGISTRATION_DENIED"
    have sw: "registration_switch x e = e" if "x = SEARCHING \<or> x = REGISTRATION_DENIED" for x e
      using that
      by (auto simp: registration_switch_def NOT_REGISTERED_def REGISTERED_HOME_NET_def
          REGISTRED_NO_HOME_NET_def SEARCHING_def REGISTRATION_DENIED_def)
    from a have "fst ((registration_poll ^^ 1) ?s0) = SEARCHING
        \<or> fst ((registration_poll ^^ 1) ?s0) = REGISTRATION_DENIED"
      and "fst ((registration_poll ^^ 2) ?s0) = SEARCHING
        \<or> fst ((registration_poll ^^ 2) ?s0) = REGISTRATION_DENIED"
      and "fst ((registration_poll ^^ 3) ?s0) = SEARCHING
        \<or> fst ((registration_poll ^^ 3) ?s0) = REGISTRATION_DENIED"
      and "fst ((registration_poll ^^ 4) ?s0) = SEARCHING
        \<or> fst ((registration_poll ^^ 4) ?s0) = REGISTRATION_DENIED"
      by blast+
    then show "fst (gsm_network_registration status0 error_status0 w) = error_status0"
      unfolding all by (simp only: sw)
  qed
  have c7: "snd (gsm_network_registration status0 error_status0 w)
           = snd (send_parse_reply ''AT+CREG?'' ''+CREG: '' (CHR '','') 1 DEFAULT_TIMEOUT
                   (snd (snd ?s3)))"
    unfolding gw p4 by (rule registration_poll_world)
  from c1 have c2: "v = REGISTERED_HOME_NET \<or> v = REGISTRED_NO_HOME_NET \<longrightarrow>
            fst (gsm_network_registration status0 error_status0 w) = NO_ERROR"
    by (auto simp: NOT_REGISTERED_def REGISTERED_HOME_NET_def REGISTRED_NO_HOME_NET_def)
  from c1 have c3: "v = NOT_REGISTERED \<longrightarrow>
            fst (gsm_network_registration status0 error_status0 w) = ERROR_NETWORK_REGISTRATION"
    by simp
  from c1 c2 c3 all c5 v c7 show ?thesis by (intro conjI)
qed

lemma registration_reply_ready:
  assumes r: "ready (\<lambda>cmd n. ''+CREG: 0,'' @ [if n < 8 then early else final]) n w"
    and "early \<in> set ''0123456789''" and "final \<in> set ''0123456789''"
  shows "fst (send_parse_reply ''AT+CREG?'' ''+CREG: '' (CHR '','') 1 DEFAULT_TIMEOUT w)
           = Inr (word_of_int (atoi [if n + 2 < 8 then early else final]))"
    and "ready (\<lambda>cmd n. ''+CREG: 0,'' @ [if n < 8 then early else final]) (n + 2)
           (snd (send_parse_reply ''AT+CREG?'' ''+CREG: '' (CHR '','') 1 DEFAULT_TIMEOUT w))"
proof -
  define x where "x = (if n + 2 < 8 then early else final)"
  from assms(2,3) have digit: "x \<in> set ''0123456789''" by (simp add: x_def)
  then have plain: "x \<noteq> CR" "x \<noteq> LF" "x \<noteq> NUL" "x \<noteq> CHR '',''"
    by (auto simp: CR_def LF_def NUL_def)
  have parse: "fst (parse_reply_buffer ((''+CREG: 0,'' @ [x]) @ NUL # tail) ''+CREG: '' (CHR '','')
      (unat (1 :: uint8_t))) = Stored (word_of_int (atoi [x]))" for tail
    using plain by (simp add: parse_reply_buffer_def cstr_def NUL_def strtok_comma_def)
  have a: "(\<lambda>cmd n. ''+CREG: 0,'' @ [if n < 8 then early else final]) ''AT+CREG?'' (n + 2)
      = ''+CREG: 0,'' @ [x]"
    by (simp add: x_def)
  have p: "\<forall>c\<in>set (''+CREG: 0,'' @ [x]). c \<noteq> CR \<and> c \<noteq> LF"
    using plain by (simp add: CR_def LF_def)
  have ne: "''+CREG: 0,'' @ [x] \<noteq> []" and short: "length (''+CREG: 0,'' @ [x]) < 255"
    and t: "DEFAULT_TIMEOUT \<noteq> 0"
    by (simp_all add: DEFAULT_TIMEOUT_def)
  note s = ready_send_parse_reply [OF r a p ne short t parse]
  from s(1) show "fst (send_parse_reply ''AT+CREG?'' ''+CREG: '' (CHR '','') 1 DEFAULT_TIMEOUT w)
           = Inr (word_of_int (atoi [if n + 2 < 8 then early else final]))"
    by (simp only: x_def)
  from s(2) show "ready (\<lambda>cmd n. ''+CREG: 0,'' @ [if n < 8 then early else final]) (n + 2)
           (snd (send_parse_reply ''AT+CREG?'' ''+CREG: '' (CHR '','') 1 DEFAULT_TIMEOUT w))" .
qed


lemma registration_poll_ready:
  assumes r: "ready (\<lambda>cmd n. ''+CREG: 0,'' @ [if n < 8 then early else final]) n w"
    and d: "early \<in> set ''0123456789''" "final \<in> set ''0123456789''"
    and m: "m = n + 2"
  shows "\<exists>w'. registration_poll (status, error_status, w)
            = (word_of_int (atoi [if m < 8 then early else final]),
               registration_switch (word_of_int (atoi [if m < 8 then early else final])) error_status,
               w')
          \<and> ready (\<lambda>cmd n. ''+CREG: 0,'' @ [if n < 8 then early else final]) m w'"
proof -
  obtain x w' where
    p: "send_parse_reply ''AT+CREG?'' ''+CREG: '' (CHR '','') 1 DEFAULT_TIMEOUT w = (x, w')"
    by (cases "send_parse_reply ''AT+CREG?'' ''+CREG: '' (CHR '','') 1 DEFAULT_TIMEOUT w") auto
  from registration_reply_ready [OF r d] p
  have "x = Inr (word_of_int (atoi [if n + 2 < 8 then early else final]))"
    and "ready (\<lambda>cmd n. ''+CREG: 0,'' @ [if n < 8 then early else final]) (n + 2) w'"
    by simp_all
  with p show ?thesis unfolding m by (simp add: registration_poll_def Let_def)
qed

text \<open>
  The four rounds with a modem that reports \<open>early\<close> three times and \<open>final\<close> from then
  on.
\<close>

lemma registration_modem_run:
  fixes early final :: char and status0 :: uint16_t and error_status0 :: uint8_t
  defines "s0 \<equiv> (status0, error_status0, example_world (registration_modem early final))"
    and "ve \<equiv> word_of_int (atoi [early])" and "vf \<equiv> word_of_int (atoi [final])"
  assumes d: "early \<in> set ''0123456789''" "final \<in> set ''0123456789''"
  shows "fst ((registration_poll ^^ 1) s0) = ve"
    and "fst ((registration_poll ^^ 2) s0) = ve"
    and "fst ((registration_poll ^^ 3) s0) = ve"
    and "fst ((registration_poll ^^ 4) s0) = vf"
    and "fst (send_parse_reply ''AT+CREG?'' ''+CREG: '' (CHR '','') 1 DEFAULT_TIMEOUT
           (snd (snd ((registration_poll ^^ 3) s0)))) = Inr vf"
    and "fst (gsm_network_registration status0 error_status0
              (example_world (registration_modem early final)))
           = registration_switch vf (registration_switch ve (registration_switch ve
               (registration_switch ve error_status0)))"
proof -
  let ?A = "\<lambda>(cmd :: string) n :: nat. ''+CREG: 0,'' @ [if n < 8 then early else final]"
  let ?w0 = "example_world (registration_modem early final)"
  let ?e1 = "registration_switch ve error_status0"
  let ?e2 = "registration_switch ve ?e1"
  let ?e3 = "registration_switch ve ?e2"
  let ?e4 = "registration_switch vf ?e3"
  have r0: "ready ?A 0 ?w0"
    unfolding registration_modem_def by (rule ready_example_world)
  have "\<exists>w'. registration_poll (status0, error_status0, ?w0) = (ve, ?e1, w') \<and> ready ?A 2 w'"
    using registration_poll_ready [OF r0 d, of 2 status0 error_status0] by (simp add: ve_def)
  then obtain w1 where
    p1: "registration_poll (status0, error_status0, ?w0) = (ve, ?e1, w1)"
    and r1: "ready ?A 2 w1"
    by blast
  have "\<exists>w'. registration_poll (ve, ?e1, w1) = (ve, ?e2, w') \<and> ready ?A 4 w'"
    using registration_poll_ready [OF r1 d, of 4 ve ?e1] by (simp add: ve_def)
  then obtain w2 where
    p2: "registration_poll (ve, ?e1, w1) = (ve, ?e2, w2)"
    and r2: "ready ?A 4 w2"
    by blast
  have "\<exists>w'. registration_poll (ve, ?e2, w2) = (ve, ?e3, w') \<and> ready ?A 6 w'"
    using registration_poll_ready [OF r2 d, of 6 ve ?e2] by (simp add: ve_def)
  then obtain w3 where
    p3: "registration_poll (ve, ?e2, w2) = (ve, ?e3, w3)"
    and r3: "ready ?A 6 w3"
    by blast
  have "\<exists>w'. registration_poll (ve, ?e3, w3) = (vf, ?e4, w') \<and> ready ?A 8 w'"
    using registration_poll_ready [OF r3 d, of 8 ve ?e3] by (simp add: vf_def)
  then obtain w4 where
    p4: "registration_poll (ve, ?e3, w3) = (vf, ?e4, w4)"
    by blast
  have one: "(registration_poll ^^ 1) s0 = (ve, ?e1, w1)"
    by (simp add: s0_def p1)
  have two: "(registration_poll ^^ 2) s0 = (ve, ?e2, w2)"
    by (simp add: s0_def numeral_2_eq_2 p1 p2)
  have three: "(registration_poll ^^ 3) s0 = (ve, ?e3, w3)"
    by (simp add: s0_def numeral_3_eq_3 p1 p2 p3)
  have four: "(registration_poll ^^ 4) s0 = (vf, ?e4, w4)"
    by (simp add: s0_def numeral_eq_Suc p1 p2 p3 p4)
  show "fst ((registration_poll ^^ 1) s0) = ve" by (simp only: one fst_conv)
  show "fst ((registration_poll ^^ 2) s0) = ve" by (simp only: two fst_conv)
  show "fst ((registration_poll ^^ 3) s0) = ve" by (simp only: three fst_conv)
  show "fst ((registration_poll ^^ 4) s0) = vf" by (simp only: four fst_conv)
  from registration_reply_ready(1) [OF r3 d]
  show "fst (send_parse_reply ''AT+CREG?'' ''+CREG: '' (CHR '','') 1 DEFAULT_TIMEOUT
           (snd (snd ((registration_poll ^^ 3) s0)))) = Inr vf"
    by (simp add: three vf_def)
  have "gsm_network_registration status0 error_status0 ?w0 = snd ((registration_poll ^^ 4) s0)"
    unfolding s0_def by (rule gsm_network_registration_polls)
  then show "fst (gsm_network_registration status0 error_status0 ?w0) = ?e4"
    by (simp only: four fst_conv snd_conv)
qed

lemma atoi_digit_0: "atoi ''0'' = 0" and atoi_digit_1: "atoi ''1'' = 1"
  and atoi_digit_2: "atoi ''2'' = 2" and atoi_digit_5: "atoi ''5'' = 5"
  by (simp_all add: atoi_eval isspace_c_def digits_value_def isdigit_c_def)

theorem registration_result_from_polls_witness:
  "fst (send_parse_reply ''AT+CREG?'' ''+CREG: '' (CHR '','') 1 DEFAULT_TIMEOUT
        (snd (snd ((registration_poll ^^ 3)
           (7, 9, example_world (registration_modem (CHR ''0'') (CHR ''1'')))))))
       = Inr REGISTERED_HOME_NET
   \<and> fst ((registration_poll ^^ 3) (7, 9, example_world (registration_modem (CHR ''0'') (CHR ''1''))))
       = NOT_REGISTERED
   \<and> fst (gsm_network_registration 7 9 (example_world (registration_modem (CHR ''0'') (CHR ''1''))))
       = NO_ERROR
   \<and> fst (send_parse_reply ''AT+CREG?'' ''+CREG: '' (CHR '','') 1 DEFAULT_TIMEOUT
        (snd (snd ((registration_poll ^^ 3)
           (7, 9, example_world (registration_modem (CHR ''5'') (CHR ''0'')))))))
       = Inr NOT_REGISTERED
   \<and> fst ((registration_poll ^^ 3) (7, 9, example_world (registration_modem (CHR ''5'') (CHR ''0''))))
       = REGISTRED_NO_HOME_NET
   \<and> fst (gsm_network_registration 7 9 (example_world (registration_modem (CHR ''5'') (CHR ''0''))))
       = ERROR_NETWORK_REGISTRATION
   \<and> fst ((registration_poll ^^ 1)
           (7, 9, example_world (registration_modem (CHR ''2'') (CHR ''2'')))) = SEARCHING
   \<and> fst ((registration_poll ^^ 2)
           (7, 9, example_world (registration_modem (CHR ''2'') (CHR ''2'')))) = SEARCHING
   \<and> fst ((registration_poll ^^ 3)
           (7, 9, example_world (registration_modem (CHR ''2'') (CHR ''2'')))) = SEARCHING
   \<and> fst ((registration_poll ^^ 4)
           (7, 9, example_world (registration_modem (CHR ''2'') (CHR ''2'')))) = SEARCHING
   \<and> fst (gsm_network_registration 7 9 (example_world (registration_modem (CHR ''2'') (CHR ''2''))))
       = 9"
proof -
  have a: "fst (send_parse_reply ''AT+CREG?'' ''+CREG: '' (CHR '','') 1 DEFAULT_TIMEOUT
        (snd (snd ((registration_poll ^^ 3)
           (7, 9, example_world (registration_modem (CHR ''0'') (CHR ''1'')))))))
       = Inr REGISTERED_HOME_NET"
    using registration_modem_run(5) [of "CHR ''0''" "CHR ''1''" 7 9]
    by (simp add: atoi_digit_1 REGISTERED_HOME_NET_def)
  have a': "fst ((registration_poll ^^ 3)
        (7, 9, example_world (registration_modem (CHR ''0'') (CHR ''1'')))) = NOT_REGISTERED"
    using registration_modem_run(3) [of "CHR ''0''" "CHR ''1''" 7 9]
    by (simp add: atoi_digit_0 NOT_REGISTERED_def)
  have b: "fst (send_parse_reply ''AT+CREG?'' ''+CREG: '' (CHR '','') 1 DEFAULT_TIMEOUT
        (snd (snd ((registration_poll ^^ 3)
           (7, 9, example_world (registration_modem (CHR ''5'') (CHR ''0'')))))))
       = Inr NOT_REGISTERED"
    using registration_modem_run(5) [of "CHR ''5''" "CHR ''0''" 7 9]
    by (simp add: atoi_digit_0 NOT_REGISTERED_def)
  have b': "fst ((registration_poll ^^ 3)
        (7, 9, example_world (registration_modem (CHR ''5'') (CHR ''0'')))) = REGISTRED_NO_HOME_NET"
    using registration_modem_run(3) [of "CHR ''5''" "CHR ''0''" 7 9]
    by (simp add: atoi_digit_5 REGISTRED_NO_HOME_NET_def)
  have c: "fst (send_parse_reply ''AT+CREG?'' ''+CREG: '' (CHR '','') 1 DEFAULT_TIMEOUT
        (snd (snd ((registration_poll ^^ 3)
           (7, 9, example_world (registration_modem (CHR ''2'') (CHR ''2'')))))))
       = Inr SEARCHING"
    using registration_modem_run(5) [of "CHR ''2''" "CHR ''2''" 7 9]
    by (simp add: atoi_digit_2 SEARCHING_def)
  have c': "\<forall>i\<in>{1, 2, 3, 4}.
         fst ((registration_poll ^^ i)
           (7, 9, example_world (registration_modem (CHR ''2'') (CHR ''2'')))) = SEARCHING"
    using registration_modem_run(1-4) [of "CHR ''2''" "CHR ''2''" 7 9]
    by (simp add: atoi_digit_2 SEARCHING_def)
  have ra: "fst (gsm_network_registration 7 9
          (example_world (registration_modem (CHR ''0'') (CHR ''1'')))) = NO_ERROR"
    using registration_result_from_polls [OF a] by blast
  have rb: "fst (gsm_network_registration 7 9
          (example_world (registration_modem (CHR ''5'') (CHR ''0'')))) = ERROR_NETWORK_REGISTRATION"
    using registration_result_from_polls [OF b] by blast
  have rc: "fst (gsm_network_registration 7 9
          (example_world (registration_modem (CHR ''2'') (CHR ''2'')))) = 9"
    using registration_result_from_polls [OF c] c' by blast
  from c' have c1: "fst ((registration_poll ^^ 1)
           (7, 9, example_world (registration_modem (CHR ''2'') (CHR ''2'')))) = SEARCHING"
    and c2: "fst ((registration_poll ^^ 2)
           (7, 9, example_world (registration_modem (CHR ''2'') (CHR ''2'')))) = SEARCHING"
    and c3: "fst ((registration_poll ^^ 3)
           (7, 9, example_world (registration_modem (CHR ''2'') (CHR ''2'')))) = SEARCHING"
    and c4: "fst ((registration_poll ^^ 4)
           (7, 9, example_world (registration_modem (CHR ''2'') (CHR ''2'')))) = SEARCHING"
    by blast+
  from a a' b b' c1 c2 c3 c4 ra rb rc show ?thesis by (intro conjI)
qed

theorem registration_searching_last_counterexample:
  "fst (send_parse_reply ''AT+CREG?'' ''+CREG: '' (CHR '','') 1 DEFAULT_TIMEOUT
        (snd (snd ((registration_poll ^^ 3)
           (7, 9, example_world (registration_modem (CHR ''0'') (CHR ''2'')))))))
       = Inr SEARCHING
   \<and> fst (gsm_network_registration 7 9 (example_world (registration_modem (CHR ''0'') (CHR ''2''))))
       = ERROR_NETWORK_REGISTRATION
   \<and> fst (send_parse_reply ''AT+CREG?'' ''+CREG: '' (CHR '','') 1 DEFAULT_TIMEOUT
        (snd (snd ((registration_poll ^^ 3)
           (7, 9, example_world (registration_modem (CHR ''1'') (CHR ''2'')))))))
       = Inr SEARCHING
   \<and> fst (gsm_network_registration 7 9 (example_world (registration_modem (CHR ''1'') (CHR ''2''))))
       = NO_ERROR
   \<and> fst (send_parse_reply ''AT+CREG?'' ''+CREG: '' (CHR '','') 1 DEFAULT_TIMEOUT
        (snd (snd ((registration_poll ^^ 3)
           (7, 9, example_world (registration_modem (CHR ''2'') (CHR ''2'')))))))
       = Inr SEARCHING
   \<and> fst (gsm_network_registration 7 9 (example_world (registration_modem (CHR ''2'') (CHR ''2''))))
       = 9
   \<and> fst (gsm_network_registration 7 0 (example_world (registration_modem (CHR ''2'') (CHR ''2''))))
       = 0"
proof -
  have a: "fst (send_parse_reply ''AT+CREG?'' ''+CREG: '' (CHR '','') 1 DEFAULT_TIMEOUT
        (snd (snd ((registration_poll ^^ 3)
           (7, 9, example_world (registration_modem (CHR ''0'') (CHR ''2'')))))))
       = Inr SEARCHING"
    using registration_modem_run(5) [of "CHR ''0''" "CHR ''2''" 7 9]
    by (simp add: atoi_digit_2 SEARCHING_def)
  have b: "fst (send_parse_reply ''AT+CREG?'' ''+CREG: '' (CHR '','') 1 DEFAULT_TIMEOUT
        (snd (snd ((registration_poll ^^ 3)
           (7, 9, example_world (registration_modem (CHR ''1'') (CHR ''2'')))))))
       = Inr SEARCHING"
    using registration_modem_run(5) [of "CHR ''1''" "CHR ''2''" 7 9]
    by (simp add: atoi_digit_2 SEARCHING_def)
  have c: "fst (send_parse_reply ''AT+CREG?'' ''+CREG: '' (CHR '','') 1 DEFAULT_TIMEOUT
        (snd (snd ((registration_poll ^^ 3)
           (7, 9, example_world (registration_modem (CHR ''2'') (CHR ''2'')))))))
       = Inr SEARCHING"
    using registration_modem_run(5) [of "CHR ''2''" "CHR ''2''" 7 9]
    by (simp add: atoi_digit_2 SEARCHING_def)
  have ra: "fst (gsm_network_registration 7 9
        (example_world (registration_modem (CHR ''0'') (CHR ''2'')))) = ERROR_NETWORK_REGISTRATION"
    using registration_modem_run(6) [of "CHR ''0''" "CHR ''2''" 7 9]
    by (simp add: atoi_digit_0 atoi_digit_2 registration_switch_cases)
  have rb: "fst (gsm_network_registration 7 9
        (example_world (registration_modem (CHR ''1'') (CHR ''2'')))) = NO_ERROR"
    using registration_modem_run(6) [of "CHR ''1''" "CHR ''2''" 7 9]
    by (simp add: atoi_digit_1 atoi_digit_2 registration_switch_cases)
  have rc: "fst (gsm_network_registration 7 9
        (example_world (registration_modem (CHR ''2'') (CHR ''2'')))) = 9"
    using registration_modem_run(6) [of "CHR ''2''" "CHR ''2''" 7 9]
    by (simp add: atoi_digit_2 registration_switch_cases)
  have rd: "fst (gsm_network_registration 7 0
        (example_world (registration_modem (CHR ''2'') (CHR ''2'')))) = 0"
    using registration_modem_run(6) [of "CHR ''2''" "CHR ''2''" 7 0]
    by (simp add: atoi_digit_2 registration_switch_cases)
  from a ra b rb c rc rd show ?thesis by (intro conjI)
qed

subsection \<open>Bearer idempotence\<close>

lemma set_steps_out_take: "set (steps_out (take k steps)) \<subseteq> set (steps_out steps)"
  unfolding steps_out_def by (auto dest: in_set_takeD)

lemma sends_check_replies_subset:
  "\<exists>cmds. sends cmds w (snd (check_replies steps w)) \<and> set cmds \<subseteq> set (steps_out steps)"
  using sends_check_replies [of steps w] set_steps_out_take by blast

lemma sends_gprs_query: "sends [''AT+SAPBR=2,1'', CRLF] w (snd (gprs_query w))"
  using sends_send_parse_reply [of "''AT+SAPBR=2,1''" w "''+SAPBR: ''" "CHR '',''" 1 10000]
  by (cases "send_parse_reply ''AT+SAPBR=2,1'' ''+SAPBR: '' (CHR '','') 1 10000 w")
     (simp add: gprs_query_def split: sum.split)

lemma sends_gprs_enable_query:
  assumes "gprs_enable_query state w = Inr (module_state, bearer_state, w')"
  shows "\<exists>cmds. sends cmds w w'
           \<and> set cmds \<subseteq> {''AT+CGATT?'', CRLF, ''AT+CGATT=1'', ''AT+SAPBR=2,1''}"
proof -
  obtain x w1 where
    p: "send_parse_reply ''AT+CGATT?'' ''+CGATT: '' (CHR '','') 0 20000 w = (x, w1)"
    by (cases "send_parse_reply ''AT+CGATT?'' ''+CGATT: '' (CHR '','') 0 20000 w") auto
  with assms obtain ms where x: "x = Inr ms"
    by (cases x) (simp_all add: gprs_enable_query_def)
  from sends_send_parse_reply [of "''AT+CGATT?''" w "''+CGATT: ''" "CHR '',''" 0 20000] p
  have s1: "sends [''AT+CGATT?'', CRLF] w w1" by simp
  let ?attach = "if state \<and> ms = 0
      then check_replies [Step ''AT+CGATT=1'' None ''OK'' 20000 ERROR_GPRS_SERVICE] w1
      else (NO_ERROR, w1)"
  obtain r w2 where a: "?attach = (r, w2)" by (cases ?attach) auto
  have "\<exists>cmds. sends cmds w1 w2 \<and> set cmds \<subseteq> {''AT+CGATT=1'', CRLF}"
  proof (cases "state \<and> ms = 0")
    case True
    with a sends_check_replies_subset
      [of w1 "[Step ''AT+CGATT=1'' None ''OK'' 20000 ERROR_GPRS_SERVICE]"]
    show ?thesis by (simp add: steps_out_def)
  next
    case False
    with a have "w2 = w1" by auto
    then show ?thesis using sends_refl [of w1] by (intro exI [of _ "[]"]) simp
  qed
  then obtain c2 where s2: "sends c2 w1 w2" and c2: "set c2 \<subseteq> {''AT+CGATT=1'', CRLF}"
    by blast
  obtain q w3 where g: "gprs_query w2 = (q, w3)" by (cases "gprs_query w2") auto
  with sends_gprs_query [of w2] have s3: "sends [''AT+SAPBR=2,1'', CRLF] w2 w3" by simp
  from assms p x a g have "w' = w3"
    by (simp add: gprs_enable_query_def split: if_splits)
  with sends_trans [OF sends_trans [OF s1 s2] s3]
  have "sends (([''AT+CGATT?'', CRLF] @ c2) @ [''AT+SAPBR=2,1'', CRLF]) w w'" by simp
  moreover from c2
  have "set (([''AT+CGATT?'', CRLF] @ c2) @ [''AT+SAPBR=2,1'', CRLF])
      \<subseteq> {''AT+CGATT?'', CRLF, ''AT+CGATT=1'', ''AT+SAPBR=2,1''}"
    by auto
  ultimately show ?thesis by blast
qed

lemma issued_sends: "sends cmds w w' \<Longrightarrow> issued w w' = cmds"
  by (simp add: sends_def issued_def)

lemma open_sequence_apart:
  "set (open_sequence cfg)
     \<inter> {''AT+CGATT?'', CRLF, ''AT+CGATT=1'', ''AT+SAPBR=2,1''} = {}"
  by (simp add: open_sequence_def bearer_contype_cmd_def bearer_apn_cmd_def
        bearer_user_cmd_def bearer_pwd_cmd_def bearer_open_cmd_def CRLF_def CR_def LF_def)

lemma close_cmd_apart:
  "bearer_close_cmd \<notin> {''AT+CGATT?'', CRLF, ''AT+CGATT=1'', ''AT+SAPBR=2,1'', ''AT+CGATT=0''}"
  by (simp add: bearer_close_cmd_def CRLF_def CR_def LF_def)

text \<open>
  Claim C8. When \<open>SIM868_gprs_enable(true)\<close> reads the bearer state \<open>CONNECTED\<close>,
  none of the commands of the open sequence (connection type, APN, user name, password,
  open bearer) is among the strings it sends; when \<open>SIM868_gprs_enable(false)\<close> reads
  the bearer state \<open>CLOSED\<close>, the command that closes the bearer is not among them.
\<close>

theorem gprs_enable_idempotent:
  "(queried_bearer_state True w = Some CONNECTED \<longrightarrow>
      set (issued w (snd (SIM868_gprs_enable True w)))
        \<inter> set (open_sequence (gs_bearer_config w)) = {})
   \<and> (queried_bearer_state False w = Some CLOSED \<longrightarrow>
      bearer_close_cmd \<notin> set (issued w (snd (SIM868_gprs_enable False w))))"
proof (intro conjI impI)
  assume "queried_bearer_state True w = Some CONNECTED"
  then obtain ms w1 where q: "gprs_enable_query True w = Inr (ms, CONNECTED, w1)"
    by (auto simp: queried_bearer_state_def split: sum.splits)
  from sends_gprs_enable_query [OF q] obtain cmds where s: "sends cmds w w1"
    and c: "set cmds \<subseteq> {''AT+CGATT?'', CRLF, ''AT+CGATT=1'', ''AT+SAPBR=2,1''}"
    by blast
  from q have "snd (SIM868_gprs_enable True w) = w1"
    by (simp add: SIM868_gprs_enable_def gprs_enable_act_def gprs_enable_detach_def
          CONNECTED_def CLOSED_def)
  with issued_sends [OF s] have "issued w (snd (SIM868_gprs_enable True w)) = cmds" by simp
  with c open_sequence_apart [of "gs_bearer_config w"]
  show "set (issued w (snd (SIM868_gprs_enable True w)))
        \<inter> set (open_sequence (gs_bearer_config w)) = {}"
    by blast
next
  assume "queried_bearer_state False w = Some CLOSED"
  then obtain ms w1 where q: "gprs_enable_query False w = Inr (ms, CLOSED, w1)"
    by (auto simp: queried_bearer_state_def split: sum.splits)
  from sends_gprs_enable_query [OF q] obtain cmds where s: "sends cmds w w1"
    and c: "set cmds \<subseteq> {''AT+CGATT?'', CRLF, ''AT+CGATT=1'', ''AT+SAPBR=2,1''}"
    by blast
  from q have e: "SIM868_gprs_enable False w = gprs_enable_detach False ms w1"
    by (simp add: SIM868_gprs_enable_def gprs_enable_act_def CONNECTED_def CLOSED_def)
  have "\<exists>c2. sends c2 w1 (snd (gprs_enable_detach False ms w1))
      \<and> set c2 \<subseteq> {''AT+CGATT=0'', CRLF}"
  proof (cases "ms \<noteq> 0")
    case True
    with sends_check_replies_subset
      [of w1 "[Step ''AT+CGATT=0'' None ''OK'' 20000 ERROR_GPRS_SERVICE]"]
    show ?thesis by (simp add: gprs_enable_detach_def steps_out_def)
  next
    case False
    then show ?thesis
      using sends_refl [of w1] by (intro exI [of _ "[]"]) (simp add: gprs_enable_detach_def)
  qed
  then obtain c2 where s2: "sends c2 w1 (snd (gprs_enable_detach False ms w1))"
    and c2: "set c2 \<subseteq> {''AT+CGATT=0'', CRLF}"
    by blast
  from issued_sends [OF sends_trans [OF s s2]] e
  have "issued w (snd (SIM868_gprs_enable False w)) = cmds @ c2" by simp
  moreover from c c2 have "set (cmds @ c2)
      \<subseteq> {''AT+CGATT?'', CRLF, ''AT+CGATT=1'', ''AT+SAPBR=2,1'', ''AT+CGATT=0''}"
    by auto
  ultimately show "bearer_close_cmd \<notin> set (issued w (snd (SIM868_gprs_enable False w)))"
    using close_cmd_apart by auto
qed


lemma bearer_query_state:
  assumes d: "d \<in> set ''0123456789''"
  shows "queried_bearer_state state (example_world (bearer_modem d))
           = Some (ucast (word_of_int (atoi [d]) :: uint16_t))"
proof -
  let ?A = "\<lambda>(cmd :: string) n :: nat.
       if cmd = ''AT+CGATT?'' then ''+CGATT: 1''
       else if cmd = ''AT+SAPBR=2,1''
         then ''+SAPBR: 1,'' @ [d] @ '','' @ quoted ''10.0.0.1''
       else ''OK''"
  let ?w0 = "example_world (bearer_modem d)"
  from d have plain: "d \<noteq> CR" "d \<noteq> LF" "d \<noteq> NUL" "d \<noteq> CHR '',''"
    by (auto simp: CR_def LF_def NUL_def)
  have r0: "ready ?A 0 ?w0"
    unfolding bearer_modem_def by (rule ready_example_world)
  have parse1: "fst (parse_reply_buffer (''+CGATT: 1'' @ NUL # tail) ''+CGATT: '' (CHR '','')
      (unat (0 :: uint8_t))) = Stored 1" for tail
    by (simp add: parser_eval)
  note s1 = ready_send_parse_reply [OF r0, where cmd = "''AT+CGATT?''" and line = "''+CGATT: 1''"
      and time_out = 20000 and reply = "''+CGATT: ''" and divider = "CHR '',''" and index = 0
      and v = 1]
  have a1: "fst (send_parse_reply ''AT+CGATT?'' ''+CGATT: '' (CHR '','') 0 20000 ?w0) = Inr 1"
    using parse1 by (intro s1(1)) (simp_all add: CR_def LF_def)
  have "ready ?A (0 + 2) (snd (send_parse_reply ''AT+CGATT?'' ''+CGATT: '' (CHR '','') 0 20000 ?w0))"
    using parse1 by (intro s1(2)) (simp_all add: CR_def LF_def)
  then have r1s: "ready ?A 2 (snd (send_parse_reply ''AT+CGATT?'' ''+CGATT: '' (CHR '','') 0 20000 ?w0))"
    by (simp only: add_0)
  obtain x w1 where
    e: "send_parse_reply ''AT+CGATT?'' ''+CGATT: '' (CHR '','') 0 20000 ?w0 = (x, w1)"
    by (cases "send_parse_reply ''AT+CGATT?'' ''+CGATT: '' (CHR '','') 0 20000 ?w0") auto
  from a1 e have "x = Inr 1" by simp
  with e have
    p1: "send_parse_reply ''AT+CGATT?'' ''+CGATT: '' (CHR '','') 0 20000 ?w0 = (Inr 1, w1)"
    by simp
  from r1s have r1: "ready ?A 2 w1" by (simp only: e snd_conv)
  let ?line = "''+SAPBR: 1,'' @ [d] @ '','' @ quoted ''10.0.0.1''"
  have parse2: "fst (parse_reply_buffer (?line @ NUL # tail) ''+SAPBR: '' (CHR '','')
      (unat (1 :: uint8_t))) = Stored (word_of_int (atoi [d]))" for tail
    using plain by (simp add: parse_reply_buffer_def cstr_def NUL_def strtok_comma_def quoted_def)
  note s2 = ready_send_parse_reply [OF r1, where cmd = "''AT+SAPBR=2,1''" and line = ?line
      and time_out = 10000 and reply = "''+SAPBR: ''" and divider = "CHR '',''" and index = 1
      and v = "word_of_int (atoi [d])"]
  have a2: "fst (send_parse_reply ''AT+SAPBR=2,1'' ''+SAPBR: '' (CHR '','') 1 10000 w1)
      = Inr (word_of_int (atoi [d]))"
    using parse2 plain by (intro s2(1)) (simp_all add: CR_def LF_def quoted_def)
  then have "fst (gprs_query w1) = word_of_int (atoi [d])"
    by (cases "send_parse_reply ''AT+SAPBR=2,1'' ''+SAPBR: '' (CHR '','') 1 10000 w1")
       (simp add: gprs_query_def)
  with p1 show ?thesis
    by (cases "gprs_query w1")
       (simp add: queried_bearer_state_def gprs_enable_query_def)
qed

theorem gprs_enable_idempotent_witness:
  "queried_bearer_state True (example_world (bearer_modem (CHR ''1''))) = Some CONNECTED
   \<and> set (issued (example_world (bearer_modem (CHR ''1'')))
             (snd (SIM868_gprs_enable True (example_world (bearer_modem (CHR ''1''))))))
       \<inter> set (open_sequence (gs_bearer_config (example_world (bearer_modem (CHR ''1''))))) = {}
   \<and> queried_bearer_state False (example_world (bearer_modem (CHR ''3''))) = Some CLOSED
   \<and> bearer_close_cmd \<notin> set (issued (example_world (bearer_modem (CHR ''3'')))
             (snd (SIM868_gprs_enable False (example_world (bearer_modem (CHR ''3''))))))"
proof -
  have a: "queried_bearer_state True (example_world (bearer_modem (CHR ''1''))) = Some CONNECTED"
    using bearer_query_state [of "CHR ''1''" True] by (simp add: atoi_digit_1 CONNECTED_def)
  have "atoi ''3'' = 3"
    by (simp add: atoi_eval isspace_c_def digits_value_def isdigit_c_def)
  then have b: "queried_bearer_state False (example_world (bearer_modem (CHR ''3''))) = Some CLOSED"
    using bearer_query_state [of "CHR ''3''" False] by (simp add: CLOSED_def)
  from gprs_enable_idempotent [of "example_world (bearer_modem (CHR ''1''))"]
       gprs_enable_idempotent [of "example_world (bearer_modem (CHR ''3''))"] a b
  show ?thesis by blast
qed

subsection \<open>HTTP action\<close>

lemma http_post_data_sends:
  "\<exists>rest. sends (http_data_cmd # CRLF # rest) w (snd (http_post_data w))
     \<and> (rest = [] \<or> rest = [json_structure (gs_http_header w), CRLF])
     \<and> (fst (http_post_data w) = NO_ERROR \<longrightarrow>
           rest = [json_structure (gs_http_header w), CRLF])"
proof -
  obtain r w1 where c1: "send_check_reply http_data_cmd ''DOWNLOAD'' DEFAULT_TIMEOUT w = (r, w1)"
    by (cases "send_check_reply http_data_cmd ''DOWNLOAD'' DEFAULT_TIMEOUT w") auto
  with sends_send_check_reply [of http_data_cmd w "''DOWNLOAD''" DEFAULT_TIMEOUT]
  have s1: "sends [http_data_cmd, CRLF] w w1" by simp
  then have h: "gs_http_header w1 = gs_http_header w" by (simp add: sends_def)
  show ?thesis
  proof (cases "r = 0")
    case False
    with c1 have "snd (http_post_data w) = w1" and "fst (http_post_data w) \<noteq> NO_ERROR"
      by (simp_all add: http_post_data_def error_codes)
    with s1 show ?thesis by (intro exI [of _ "[]"]) simp
  next
    case True
    let ?json = "json_structure (gs_http_header w)"
    obtain r2 w2 where c2: "send_check_reply ?json ''OK'' 16000 w1 = (r2, w2)"
      by (cases "send_check_reply ?json ''OK'' 16000 w1") auto
    with sends_send_check_reply [of ?json w1 "''OK''" 16000]
    have "sends [?json, CRLF] w1 w2" by simp
    from sends_trans [OF s1 this] have "sends (http_data_cmd # CRLF # [?json, CRLF]) w w2"
      by simp
    moreover from True c1 c2 h have "snd (http_post_data w) = w2"
      by (simp add: http_post_data_def)
    ultimately show ?thesis by (intro exI [of _ "[?json, CRLF]"]) simp
  qed
qed

lemma http_request_sends: "\<exists>cmds. sends cmds w (snd (http_request time_out method w))"
proof -
  let ?cmd = "''AT+HTTPACTION='' @ decimal (unat method)"
  obtain r w1 where c: "send_check_reply ?cmd ''OK'' time_out w = (r, w1)"
    by (cases "send_check_reply ?cmd ''OK'' time_out w") auto
  with sends_send_check_reply [of ?cmd w "''OK''" time_out]
  have s1: "sends [?cmd, CRLF] w w1" by simp
  let ?w2 = "read_line time_out SINGLE_LINE w1"
  obtain x w3 where p: "parse_reply ''+HTTPACTION: '' (CHR '','') 1 ?w2 = (x, w3)"
    by (cases "parse_reply ''+HTTPACTION: '' (CHR '','') 1 ?w2") auto
  with sends_parse_reply [of ?w2 "''+HTTPACTION: ''" "CHR '',''" 1]
  have "sends [] ?w2 w3" by simp
  with sends_read_line [of w1 time_out SINGLE_LINE] have "sends [] w1 w3"
    by (rule sends_quiet_then)
  with s1 have s3: "sends [?cmd, CRLF] w w3" by (rule sends_then_quiet)
  have s4: "sends [?cmd, CRLF] w (sprintf_into room msg w3)" for room msg
    by (rule sends_then_quiet [OF s3 sends_sprintf_into])
  then have s5: "sends [?cmd, CRLF] w ((sprintf_into room msg w3)\<lparr>g_http_status_code := v\<rparr>)"
    for room msg v
    by (simp add: sends_def)
  show ?thesis
  proof (cases "r = 0")
    case False
    with c s1 show ?thesis by (auto simp: http_request_def)
  next
    case True
    show ?thesis
    proof (cases x)
      case (Inl e)
      with True c p have "snd (http_request time_out method w) = w3"
        by (simp add: http_request_def del: decimal.simps)
      with s3 show ?thesis by auto
    next
      case (Inr status)
      define w4 where
        "w4 = sprintf_into (Some 18) (''Status code: '' @ decimal (unat status) @ CRLF @ CRLF) w3"
      from Inr True c p have "snd (http_request time_out method w) = w4
          \<or> snd (http_request time_out method w) = w4\<lparr>g_http_status_code := status\<rparr>"
        by (simp add: http_request_def Let_def w4_def del: decimal.simps)
      with s4 s5 show ?thesis unfolding w4_def by metis
    qed
  qed
qed

lemma http_action_post_sends:
  assumes "method \<noteq> 0"
  shows "\<exists>rest. sends (http_data_cmd # CRLF # rest) w (snd (http_action time_out method w))
     \<and> (rest = [] \<or> (\<exists>more. rest = json_structure (gs_http_header w) # CRLF # more))"
proof -
  obtain r w1 where p: "http_post_data w = (r, w1)" by (cases "http_post_data w") auto
  from http_post_data_sends [of w] p obtain rest where
    s1: "sends (http_data_cmd # CRLF # rest) w w1"
    and rest: "rest = [] \<or> rest = [json_structure (gs_http_header w), CRLF]"
    and full: "r = NO_ERROR \<longrightarrow> rest = [json_structure (gs_http_header w), CRLF]"
    by auto
  show ?thesis
  proof (cases "r = NO_ERROR")
    case False
    with assms p have "snd (http_action time_out method w) = w1"
      by (simp add: http_action_def)
    with s1 rest show ?thesis by auto
  next
    case True
    from http_request_sends [of w1 time_out "method"] obtain cmds where
      s2: "sends cmds w1 (snd (http_request time_out method w1))" ..
    from sends_trans [OF s1 s2]
    have "sends (http_data_cmd # CRLF # (rest @ cmds)) w (snd (http_request time_out method w1))"
      by simp
    moreover from True assms p
    have "snd (http_action time_out method w) = snd (http_request time_out method w1)"
      by (simp add: http_action_def)
    ultimately show ?thesis using full True by auto
  qed
qed

lemma declared_length_http_data_cmd: "declared_length http_data_cmd = Some 200"
  by (simp add: declared_length_def http_data_cmd_def atoi_eval isspace_c_def
        digits_value_def isdigit_c_def)

text \<open>
  Claim C2, as amended. For every POST request (a method other than 0) \<open>http_action\<close>
  first sends the literal command \<open>AT+HTTPDATA=200,8000\<close>, which declares a payload
  length of 200 whatever the length of the stored \<open>json_structure\<close>; the payload, when
  it is sent, is the command right after it.
\<close>

theorem http_action_post_declares_200:
  assumes "method \<noteq> 0"
  shows "(\<exists>rest. issued w (snd (http_action time_out method w)) = http_data_cmd # CRLF # rest
            \<and> (rest = [] \<or> (\<exists>more. rest = json_structure (gs_http_header w) # CRLF # more)))
         \<and> declared_length http_data_cmd = Some 200"
  using http_action_post_sends [OF assms, of w time_out] declared_length_http_data_cmd
  by (auto simp: issued_sends)

theorem http_action_post_declares_200_witness:
  "POST \<noteq> 0
   \<and> hd (issued (example_world post_modem) (snd (http_action 30000 POST (example_world post_modem))))
       = ''AT+HTTPDATA=200,8000''
   \<and> declared_length ''AT+HTTPDATA=200,8000'' = Some 200"
proof -
  have p: "POST \<noteq> 0" by (simp add: POST_def)
  from http_action_post_declares_200 [OF p, of "example_world post_modem" 30000] p
  show ?thesis by (auto simp: http_data_cmd_def)
qed

theorem http_action_post_10_bytes_counterexample:
  "length (json_structure (gs_http_header (example_world post_modem))) = 10
   \<and> hd (issued (example_world post_modem)
            (snd (http_action 30000 POST (example_world post_modem)))) = ''AT+HTTPDATA=200,8000''
   \<and> declared_length (hd (issued (example_world post_modem)
            (snd (http_action 30000 POST (example_world post_modem))))) = Some 200
   \<and> declared_length (hd (issued (example_world post_modem)
            (snd (http_action 30000 POST (example_world post_modem)))))
       \<noteq> Some (length (json_structure (gs_http_header (example_world post_modem))))"
proof -
  have j: "length (json_structure (gs_http_header (example_world post_modem))) = 10"
    by (simp add: example_world_def example_header_def quoted_def)
  have p: "POST \<noteq> 0" by (simp add: POST_def)
  from http_action_post_sends [OF p, of "example_world post_modem" 30000]
  have h: "hd (issued (example_world post_modem)
            (snd (http_action 30000 POST (example_world post_modem)))) = http_data_cmd"
    by (auto simp: issued_sends)
  with j declared_length_http_data_cmd show ?thesis
    by (simp add: http_data_cmd_def)
qed

end
